theory Spec2Isabelle
  imports Main "HOL-Library.AList" "HOL-Library.Char_ord"
begin

section \<open>The lexer (lexer.cpp, namespace parse)\<close>

subsection \<open>Tokens\<close>

text \<open>
  The alternatives of \<open>parse::Token\<close> (namespace \<open>token_type\<close>), each prefixed
  \<open>tt_\<close> because the evaluator and the runtime reuse the same names in their own
  namespaces.
\<close>

datatype Token =
    tt_Number int
  | tt_Id string
  | tt_Char char
  | tt_String string
  | tt_Class
  | tt_Return
  | tt_If
  | tt_Else
  | tt_Def
  | tt_Newline
  | tt_Print
  | tt_Indent
  | tt_Dedent
  | tt_And
  | tt_Or
  | tt_Not
  | tt_Eq
  | tt_NotEq
  | tt_LessOrEq
  | tt_GreaterOrEq
  | tt_None
  | tt_True
  | tt_False
  | tt_Eof

definition KEY_WORDS_TOKENS :: "(string \<times> Token) list" where
  "KEY_WORDS_TOKENS =
     [(''class'', tt_Class), (''return'', tt_Return), (''if'', tt_If), (''else'', tt_Else),
      (''def'', tt_Def), (''print'', tt_Print), (''or'', tt_Or), (''None'', tt_None),
      (''and'', tt_And), (''not'', tt_Not), (''True'', tt_True), (''False'', tt_False)]"

text \<open>
  What stops the lexer: the \<open>LexerError\<close> exception with its message, the exceptions
  \<open>std::stoi\<close> throws, and a failed \<open>assert\<close> (assertions are taken as compiled in,
  that is without \<open>NDEBUG\<close>; a failed one aborts the process and is no exception).
\<close>

datatype lexer_failure =
    LexerError string
  | std_out_of_range
  | std_invalid_argument
  | lexer_assert_failed

subsection \<open>The input stream\<close>

text \<open>
  A \<open>std::istream\<close> over the source text: the characters not yet read and the
  \<open>eofbit\<close>. \<open>peek\<close> and \<open>get\<close> return \<open>None\<close> for \<open>Traits::eof()\<close>; both
  set \<open>eofbit\<close> when they meet the end, and both return \<open>eof()\<close> at once on a
  stream whose \<open>eofbit\<close> is already set.
\<close>

record istream =
  buf :: string
  eofbit :: bool

definition peek :: "istream \<Rightarrow> char option \<times> istream" where
  "peek inp =
     (if eofbit inp then (None, inp)
      else case buf inp of
             [] \<Rightarrow> (None, inp\<lparr>eofbit := True\<rparr>)
           | ch # _ \<Rightarrow> (Some ch, inp))"

definition get :: "istream \<Rightarrow> char option \<times> istream" where
  "get inp =
     (if eofbit inp then (None, inp)
      else case buf inp of
             [] \<Rightarrow> (None, inp\<lparr>eofbit := True\<rparr>)
           | ch # rest \<Rightarrow> (Some ch, inp\<lparr>buf := rest\<rparr>))"

text \<open>
  \<open>char c = input.peek()\<close> narrows the \<open>int\<close> result to \<open>char\<close>: \<open>eof()\<close>, which
  is \<open>-1\<close>, becomes the byte \<open>0xFF\<close>.
\<close>

definition to_char :: "char option \<Rightarrow> char" where
  "to_char r = (case r of None \<Rightarrow> CHR 0xFF | Some ch \<Rightarrow> ch)"

definition NL :: char where
  "NL = CHR 0x0A"

subsection \<open>Character classes\<close>

text \<open>
  The comparisons are on \<open>char\<close>; every bound is below \<open>0x80\<close>, so signed and
  unsigned \<open>char\<close> agree with the order on bytes used here.
\<close>

definition IsStringOpening :: "char \<Rightarrow> bool" where
  "IsStringOpening c = (c = CHR 0x27 \<or> c = CHR 0x22)"

definition IsDigit :: "char \<Rightarrow> bool" where
  "IsDigit c = (CHR ''0'' \<le> c \<and> c \<le> CHR ''9'')"

definition IsIdOpening :: "char \<Rightarrow> bool" where
  "IsIdOpening c =
     ((CHR ''A'' \<le> c \<and> c \<le> CHR ''Z'') \<or> (CHR ''a'' \<le> c \<and> c \<le> CHR ''z'') \<or> c = CHR ''_'')"

definition IsIdCharacter :: "char \<Rightarrow> bool" where
  "IsIdCharacter c = (IsIdOpening c \<or> IsDigit c)"

subsection \<open>The scanning loops\<close>

text \<open>
  \<open>while (c == ' ') { input_.get(); c = input_.peek(); ++counter; }\<close> of
  \<open>CalculateIndent\<close>; the loop of \<open>LoadToken\<close> that skips spaces is the same loop
  without the counter.
\<close>

function spaces_loop :: "char \<Rightarrow> istream \<Rightarrow> int \<Rightarrow> char \<times> istream \<times> int" where
  "spaces_loop c inp counter =
     (if c = CHR '' '' then
        (case peek (snd (get inp)) of (r, inp') \<Rightarrow> spaces_loop (to_char r) inp' (counter + 1))
      else (c, inp, counter))"
  by pat_completeness auto
termination
  by (relation "measure (\<lambda>(c, inp, counter). 2 * length (buf inp) + (if c = CHR '' '' then 1 else 0))")
     (auto simp: peek_def get_def to_char_def split: if_splits list.splits)

text \<open>\<open>while (c != '\n' && !input_.eof()) { input_.get(); c = input_.peek(); }\<close>\<close>

function comment_loop :: "char \<Rightarrow> istream \<Rightarrow> char \<times> istream" where
  "comment_loop c inp =
     (if c \<noteq> NL \<and> \<not> eofbit inp then
        (case peek (snd (get inp)) of (r, inp') \<Rightarrow> comment_loop (to_char r) inp')
      else (c, inp))"
  by pat_completeness auto
termination
  by (relation "measure (\<lambda>(c, inp). 2 * length (buf inp) + (if eofbit inp then 0 else 1))")
     (auto simp: peek_def get_def to_char_def split: if_splits list.splits)

text \<open>
  \<open>while (IsDigit(c)) { c = input.get(); s.push_back(c); c = input.peek(); }\<close>
\<close>

function digits_loop :: "char \<Rightarrow> istream \<Rightarrow> string \<Rightarrow> istream \<times> string" where
  "digits_loop c inp s =
     (if IsDigit c then
        (case get inp of (g, inp1) \<Rightarrow>
           case peek inp1 of (r, inp2) \<Rightarrow> digits_loop (to_char r) inp2 (s @ [to_char g]))
      else (inp, s))"
  by pat_completeness auto
termination
  by (relation "measure (\<lambda>(c, inp, s). 2 * length (buf inp) + (if IsDigit c then 1 else 0))")
     (auto simp: peek_def get_def to_char_def IsDigit_def less_eq_char_def
           split: if_splits list.splits)

function id_loop :: "char \<Rightarrow> istream \<Rightarrow> string \<Rightarrow> istream \<times> string" where
  "id_loop c inp s =
     (if IsIdCharacter c then
        (case get inp of (g, inp1) \<Rightarrow>
           case peek inp1 of (r, inp2) \<Rightarrow> id_loop (to_char r) inp2 (s @ [to_char g]))
      else (inp, s))"
  by pat_completeness auto
termination
  by (relation "measure (\<lambda>(c, inp, s). 2 * length (buf inp) + (if IsIdCharacter c then 1 else 0))")
     (auto simp: peek_def get_def to_char_def IsIdCharacter_def IsIdOpening_def IsDigit_def
                 less_eq_char_def
           split: if_splits list.splits)

declare spaces_loop.simps [simp del] comment_loop.simps [simp del]
  digits_loop.simps [simp del] id_loop.simps [simp del]

subsection \<open>The token loaders\<close>

text \<open>
  The loop of \<open>LoadStringToken\<close>. It runs on \<open>istreambuf_iterator\<close>, that is on the
  stream buffer itself, and never touches the stream's state bits. The arguments are the
  opening quote, the characters from the iterator on, and the string collected so far;
  the result is the string and the characters after the closing quote.
\<close>

fun string_loop :: "char \<Rightarrow> string \<Rightarrow> string \<Rightarrow> lexer_failure + (string \<times> string)" where
  "string_loop open_quote [] s = Inl (LexerError ''String parsing error'')"
| "string_loop open_quote (ch # rest) s =
     (if ch = open_quote then Inr (s, rest)
      else if ch = CHR 0x5C then
        (case rest of
           [] \<Rightarrow> Inl (LexerError ''String parsing error'')
         | escaped_char # rest' \<Rightarrow>
             if escaped_char = CHR ''n'' then string_loop open_quote rest' (s @ [NL])
             else if escaped_char = CHR ''t'' then string_loop open_quote rest' (s @ [CHR 0x09])
             else if escaped_char = CHR 0x27 then string_loop open_quote rest' (s @ [CHR 0x27])
             else if escaped_char = CHR 0x22 then string_loop open_quote rest' (s @ [CHR 0x22])
             else Inl (LexerError (''Unrecognized escape sequence '' @ [CHR 0x5C, escaped_char])))
      else if ch = NL \<or> ch = CHR 0x0D then Inl (LexerError ''Unexpected end of line'')
      else string_loop open_quote rest (s @ [ch]))"

text \<open>
  \<open>input >> open_quote\<close> is a formatted read: it skips white space and takes one
  character. When it finds none the iterator is at the end too, and the loop throws at
  once.
\<close>

definition isspace :: "char \<Rightarrow> bool" where
  "isspace c = (c = CHR '' '' \<or> c = CHR 0x09 \<or> c = NL \<or> c = CHR 0x0B \<or> c = CHR 0x0C \<or> c = CHR 0x0D)"

definition LoadStringToken :: "istream \<Rightarrow> lexer_failure + (Token \<times> istream)" where
  "LoadStringToken inp =
     (if eofbit inp then Inl (LexerError ''String parsing error'')
      else case dropWhile isspace (buf inp) of
             [] \<Rightarrow> Inl (LexerError ''String parsing error'')
           | open_quote # rest \<Rightarrow>
               (case string_loop open_quote rest [] of
                  Inl e \<Rightarrow> Inl e
                | Inr (s, rest') \<Rightarrow> Inr (tt_String s, inp\<lparr>buf := rest'\<rparr>)))"

text \<open>
  \<open>std::stoi\<close> on what \<open>LoadNumberToken\<close> collected: a run of decimal digits, no
  sign. It throws \<open>std::invalid_argument\<close> on the empty string and
  \<open>std::out_of_range\<close> when the value does not fit \<open>int\<close> (32 bits).
\<close>

definition digit_value :: "char \<Rightarrow> int" where
  "digit_value c = int (of_char c) - 48"

definition stoi :: "string \<Rightarrow> lexer_failure + int" where
  "stoi s =
     (if s = [] then Inl std_invalid_argument
      else let v = foldl (\<lambda>acc d. acc * 10 + digit_value d) 0 s
           in if v > 2147483647 then Inl std_out_of_range else Inr v)"

definition LoadNumberToken :: "istream \<Rightarrow> lexer_failure + (Token \<times> istream)" where
  "LoadNumberToken inp =
     (case peek inp of (r, inp0) \<Rightarrow>
        case digits_loop (to_char r) inp0 [] of (inp', s) \<Rightarrow>
          case stoi s of Inl e \<Rightarrow> Inl e | Inr v \<Rightarrow> Inr (tt_Number v, inp'))"

definition LoadIdToken :: "istream \<Rightarrow> lexer_failure + (Token \<times> istream)" where
  "LoadIdToken inp =
     (case peek inp of (r, inp0) \<Rightarrow>
        case id_loop (to_char r) inp0 [] of (inp', s) \<Rightarrow>
          case map_of KEY_WORDS_TOKENS s of
            Some t \<Rightarrow> Inr (t, inp')
          | None \<Rightarrow> Inr (tt_Id s, inp'))"

definition LoadOperatorsToken :: "istream \<Rightarrow> lexer_failure + (Token \<times> istream)" where
  "LoadOperatorsToken inp =
     (case get inp of (g, inp1) \<Rightarrow>
        let c1 = to_char g in
        if c1 = CHR ''='' \<or> c1 = CHR ''!'' \<or> c1 = CHR ''>'' \<or> c1 = CHR ''<'' then
          (case peek inp1 of (r, inp2) \<Rightarrow>
             if to_char r = CHR ''='' then
               (let inp3 = snd (get inp2) in
                if c1 = CHR ''='' then Inr (tt_Eq, inp3)
                else if c1 = CHR ''!'' then Inr (tt_NotEq, inp3)
                else if c1 = CHR ''>'' then Inr (tt_GreaterOrEq, inp3)
                else Inr (tt_LessOrEq, inp3))
             else Inr (tt_Char c1, inp2))
        else Inr (tt_Char c1, inp1))"

subsection \<open>The lexer\<close>

text \<open>
  The members of \<open>Lexer\<close>. The class is declared in \<open>lexer.h\<close>, which is not among the
  sources; the initial values \<open>current_indent_ = 0\<close> and \<open>new_line_ = true\<close> are the
  ones the specification gives (section 4.C).
\<close>

record Lexer =
  input :: istream
  tokens :: "Token list"
  current_indent :: int
  new_line :: bool

definition CalculateIndent :: "Lexer \<Rightarrow> lexer_failure + Lexer" where
  "CalculateIndent L =
     (case peek (input L) of (r, inp0) \<Rightarrow>
        case spaces_loop (to_char r) inp0 0 of (c, inp', counter) \<Rightarrow>
          if c = NL then Inr (L\<lparr>input := inp'\<rparr>)
          else if counter mod 2 \<noteq> 0 then Inl lexer_assert_failed
          else
            let indent = (if counter div 2 > current_indent L then tt_Indent else tt_Dedent)
            in Inr (L\<lparr>input := inp',
                      tokens := tokens L @ replicate (nat \<bar>counter div 2 - current_indent L\<bar>) indent,
                      current_indent := current_indent L + (counter div 2 - current_indent L),
                      new_line := False\<rparr>))"

text \<open>
  \<open>LoadToken\<close> up to the second \<open>c = input_.peek()\<close> (lines 248 to 262): the indent
  of a fresh line, the spaces, a comment. The result is \<open>c\<close> and the lexer after it.
\<close>

definition LoadToken_scan :: "Lexer \<Rightarrow> lexer_failure + (char \<times> Lexer)" where
  "LoadToken_scan L =
     (case (if new_line L then CalculateIndent L else Inr L) of
        Inl e \<Rightarrow> Inl e
      | Inr L1 \<Rightarrow>
          (case peek (input L1) of (r, inp0) \<Rightarrow>
             case spaces_loop (to_char r) inp0 0 of (c1, inp1, _) \<Rightarrow>
               case (if c1 = CHR ''#'' then comment_loop c1 inp1 else (c1, inp1)) of (_, inp2) \<Rightarrow>
                 case peek inp2 of (r3, inp3) \<Rightarrow> Inr (to_char r3, L1\<lparr>input := inp3\<rparr>)))"

text \<open>\<open>LoadToken\<close> from \<open>if (input_.eof())\<close> on (lines 272 to 290).\<close>

definition lift_token :: "Lexer \<Rightarrow> lexer_failure + (Token \<times> istream) \<Rightarrow> lexer_failure + (Token \<times> Lexer)" where
  "lift_token L r = (case r of Inl e \<Rightarrow> Inl e | Inr (t, inp') \<Rightarrow> Inr (t, L\<lparr>input := inp'\<rparr>))"

definition LoadToken_dispatch :: "char \<Rightarrow> Lexer \<Rightarrow> lexer_failure + (Token \<times> Lexer)" where
  "LoadToken_dispatch c L =
     (if eofbit (input L) then
        (if tokens L = [] then Inr (tt_Eof, L)
         else if last (tokens L) = tt_Newline \<or> last (tokens L) = tt_Dedent then Inr (tt_Eof, L)
         else Inr (tt_Newline, L))
      else if IsStringOpening c then lift_token L (LoadStringToken (input L))
      else if IsDigit c then lift_token L (LoadNumberToken (input L))
      else if IsIdOpening c then lift_token L (LoadIdToken (input L))
      else lift_token L (LoadOperatorsToken (input L)))"

text \<open>Reading never puts characters back: what the termination proofs below rest on.\<close>

lemma buf_peek: "buf (snd (peek inp)) = buf inp"
  by (simp add: peek_def split: list.splits)

lemma length_buf_get: "length (buf (snd (get inp))) \<le> length (buf inp)"
  by (simp add: get_def split: list.splits)

lemma length_buf_peek_get: "length (buf (snd (peek (snd (get inp))))) \<le> length (buf inp)"
  by (simp add: buf_peek length_buf_get)

lemma spaces_loop_space:
  "spaces_loop CHR '' '' inp n =
     (case peek (snd (get inp)) of (r, inp') \<Rightarrow> spaces_loop (to_char r) inp' (n + 1))"
  by (subst spaces_loop.simps) simp

lemma spaces_loop_other: "c \<noteq> CHR '' '' \<Longrightarrow> spaces_loop c inp n = (c, inp, n)"
  by (subst spaces_loop.simps) simp

lemma comment_loop_step:
  "c \<noteq> NL \<Longrightarrow> \<not> eofbit inp \<Longrightarrow>
   comment_loop c inp = (case peek (snd (get inp)) of (r, inp') \<Rightarrow> comment_loop (to_char r) inp')"
  by (subst comment_loop.simps) simp

lemma comment_loop_stop: "c = NL \<or> eofbit inp \<Longrightarrow> comment_loop c inp = (c, inp)"
  by (subst comment_loop.simps) auto

lemma digits_loop_step:
  "IsDigit c \<Longrightarrow>
   digits_loop c inp s =
     (case get inp of (g, inp1) \<Rightarrow>
        case peek inp1 of (r, inp2) \<Rightarrow> digits_loop (to_char r) inp2 (s @ [to_char g]))"
  by (subst digits_loop.simps) simp

lemma digits_loop_stop: "\<not> IsDigit c \<Longrightarrow> digits_loop c inp s = (inp, s)"
  by (subst digits_loop.simps) simp

lemma id_loop_step:
  "IsIdCharacter c \<Longrightarrow>
   id_loop c inp s =
     (case get inp of (g, inp1) \<Rightarrow>
        case peek inp1 of (r, inp2) \<Rightarrow> id_loop (to_char r) inp2 (s @ [to_char g]))"
  by (subst id_loop.simps) simp

lemma id_loop_stop: "\<not> IsIdCharacter c \<Longrightarrow> id_loop c inp s = (inp, s)"
  by (subst id_loop.simps) simp

lemma spaces_loop_length:
  "spaces_loop c inp n = (c', inp', n') \<Longrightarrow> length (buf inp') \<le> length (buf inp)"
proof (induction c inp n rule: spaces_loop.induct)
  case (1 c inp counter)
  show ?case
  proof (cases "c = CHR '' ''")
    case True
    obtain r inp1 where p: "peek (snd (get inp)) = (r, inp1)"
      by (cases "peek (snd (get inp))")
    from "1.prems" True p have "spaces_loop (to_char r) inp1 (counter + 1) = (c', inp', n')"
      by (simp add: spaces_loop_space)
    with "1.IH" True p have "length (buf inp') \<le> length (buf inp1)"
      by simp
    moreover from p have "length (buf inp1) \<le> length (buf inp)"
      using length_buf_peek_get [of inp] by simp
    ultimately show ?thesis by simp
  next
    case False
    with "1.prems" show ?thesis by (simp add: spaces_loop_other)
  qed
qed

lemma comment_loop_length:
  "comment_loop c inp = (c', inp') \<Longrightarrow> length (buf inp') \<le> length (buf inp)"
proof (induction c inp rule: comment_loop.induct)
  case (1 c inp)
  show ?case
  proof (cases "c \<noteq> NL \<and> \<not> eofbit inp")
    case True
    obtain r inp1 where p: "peek (snd (get inp)) = (r, inp1)"
      by (cases "peek (snd (get inp))")
    from "1.prems" True p have "comment_loop (to_char r) inp1 = (c', inp')"
      by (simp add: comment_loop_step)
    with "1.IH" True p have "length (buf inp') \<le> length (buf inp1)"
      by simp
    moreover from p have "length (buf inp1) \<le> length (buf inp)"
      using length_buf_peek_get [of inp] by simp
    ultimately show ?thesis by simp
  next
    case False
    with "1.prems" show ?thesis by (auto simp: comment_loop_stop)
  qed
qed

lemma CalculateIndent_length:
  assumes "CalculateIndent L = Inr L'"
  shows "length (buf (input L')) \<le> length (buf (input L))"
proof -
  obtain r inp0 where p: "peek (input L) = (r, inp0)"
    by (cases "peek (input L)")
  obtain c inp1 n where s: "spaces_loop (to_char r) inp0 0 = (c, inp1, n)"
    by (cases "spaces_loop (to_char r) inp0 0")
  from assms p s have "input L' = inp1"
    by (auto simp: CalculateIndent_def Let_def split: if_splits)
  moreover from s have "length (buf inp1) \<le> length (buf inp0)"
    by (rule spaces_loop_length)
  moreover from p have "buf inp0 = buf (input L)"
    using buf_peek [of "input L"] by simp
  ultimately show ?thesis by simp
qed

lemma LoadToken_scan_length:
  assumes "LoadToken_scan L = Inr (c, L')"
  shows "length (buf (input L')) \<le> length (buf (input L))"
proof -
  obtain L1 where L1: "(if new_line L then CalculateIndent L else Inr L) = Inr L1"
    using assms by (cases "if new_line L then CalculateIndent L else Inr L")
      (auto simp: LoadToken_scan_def)
  then have a: "length (buf (input L1)) \<le> length (buf (input L))"
    by (auto dest: CalculateIndent_length split: if_splits)
  obtain r inp0 where p: "peek (input L1) = (r, inp0)"
    by (cases "peek (input L1)")
  obtain c1 inp1 n where s: "spaces_loop (to_char r) inp0 0 = (c1, inp1, n)"
    by (cases "spaces_loop (to_char r) inp0 0")
  obtain c2 inp2 where k: "(if c1 = CHR ''#'' then comment_loop c1 inp1 else (c1, inp1)) = (c2, inp2)"
    by (cases "if c1 = CHR ''#'' then comment_loop c1 inp1 else (c1, inp1)")
  obtain r3 inp3 where q: "peek inp2 = (r3, inp3)"
    by (cases "peek inp2")
  from assms L1 p s k q have "input L' = inp3"
    by (auto simp: LoadToken_scan_def)
  moreover from q have "buf inp3 = buf inp2"
    using buf_peek [of inp2] by simp
  moreover from k have "length (buf inp2) \<le> length (buf inp1)"
    by (auto dest: comment_loop_length split: if_splits)
  moreover from s have "length (buf inp1) \<le> length (buf inp0)"
    by (rule spaces_loop_length)
  moreover from p have "buf inp0 = buf (input L1)"
    using buf_peek [of "input L1"] by simp
  ultimately show ?thesis using a by simp
qed

lemma peek_Some: "peek inp = (Some ch, inp') \<Longrightarrow> inp' = inp \<and> \<not> eofbit inp \<and> buf inp \<noteq> [] \<and> hd (buf inp) = ch"
  by (auto simp: peek_def split: if_splits list.splits)

lemma peek_None: "peek inp = (None, inp') \<Longrightarrow> eofbit inp' \<and> buf inp' = buf inp"
  by (auto simp: peek_def split: if_splits list.splits)

lemma LoadToken_scan_good:
  assumes "LoadToken_scan L = Inr (c, L')" and "\<not> eofbit (input L')"
  shows "buf (input L') \<noteq> [] \<and> hd (buf (input L')) = c"
proof -
  from assms(1) obtain inp2 r3 where q: "peek inp2 = (r3, input L')" and c: "c = to_char r3"
    by (auto simp: LoadToken_scan_def split: sum.splits prod.splits)
  show ?thesis
  proof (cases r3)
    case None
    with q assms(2) show ?thesis by (auto dest: peek_None)
  next
    case (Some ch)
    with q c show ?thesis by (auto dest: peek_Some simp: to_char_def)
  qed
qed

lemma LoadToken_scan_NL:
  assumes "LoadToken_scan L = Inr (NL, L')"
  shows "length (buf (snd (get (input L')))) < length (buf (input L))"
proof -
  from assms obtain inp2 r3 where q: "peek inp2 = (r3, input L')" and c: "NL = to_char r3"
    by (auto simp: LoadToken_scan_def split: sum.splits prod.splits)
  from c have "r3 = Some NL"
    by (cases r3) (auto simp: to_char_def NL_def)
  with q have "\<not> eofbit (input L') \<and> buf (input L') \<noteq> []"
    by (auto dest: peek_Some)
  then have "length (buf (snd (get (input L')))) < length (buf (input L'))"
    by (cases "buf (input L')") (auto simp: get_def)
  with LoadToken_scan_length [OF assms] show ?thesis by simp
qed

lemma digits_loop_length:
  "digits_loop c inp s = (inp', s') \<Longrightarrow> length (buf inp') \<le> length (buf inp)"
proof (induction c inp s rule: digits_loop.induct)
  case (1 c inp s)
  show ?case
  proof (cases "IsDigit c")
    case True
    obtain g inp1 where g: "get inp = (g, inp1)" by (cases "get inp")
    obtain r inp2 where p: "peek inp1 = (r, inp2)" by (cases "peek inp1")
    from "1.prems" True g p have "digits_loop (to_char r) inp2 (s @ [to_char g]) = (inp', s')"
      by (simp add: digits_loop_step)
    with "1.IH" True g p have "length (buf inp') \<le> length (buf inp2)"
      by simp
    moreover from g p have "length (buf inp2) \<le> length (buf inp)"
      using length_buf_get [of inp] buf_peek [of inp1] by simp
    ultimately show ?thesis by simp
  next
    case False
    with "1.prems" show ?thesis by (simp add: digits_loop_stop)
  qed
qed

lemma id_loop_length:
  "id_loop c inp s = (inp', s') \<Longrightarrow> length (buf inp') \<le> length (buf inp)"
proof (induction c inp s rule: id_loop.induct)
  case (1 c inp s)
  show ?case
  proof (cases "IsIdCharacter c")
    case True
    obtain g inp1 where g: "get inp = (g, inp1)" by (cases "get inp")
    obtain r inp2 where p: "peek inp1 = (r, inp2)" by (cases "peek inp1")
    from "1.prems" True g p have "id_loop (to_char r) inp2 (s @ [to_char g]) = (inp', s')"
      by (simp add: id_loop_step)
    with "1.IH" True g p have "length (buf inp') \<le> length (buf inp2)"
      by simp
    moreover from g p have "length (buf inp2) \<le> length (buf inp)"
      using length_buf_get [of inp] buf_peek [of inp1] by simp
    ultimately show ?thesis by simp
  next
    case False
    with "1.prems" show ?thesis by (simp add: id_loop_stop)
  qed
qed

lemma get_good: "\<not> eofbit inp \<Longrightarrow> buf inp \<noteq> [] \<Longrightarrow> get inp = (Some (hd (buf inp)), inp\<lparr>buf := tl (buf inp)\<rparr>)"
  by (cases "buf inp") (auto simp: get_def)

lemma peek_good: "\<not> eofbit inp \<Longrightarrow> buf inp \<noteq> [] \<Longrightarrow> peek inp = (Some (hd (buf inp)), inp)"
  by (cases "buf inp") (auto simp: peek_def)

lemma string_loop_length:
  "string_loop q xs s = Inr (s', rest') \<Longrightarrow> length rest' < length xs"
  by (induction q xs s rule: string_loop.induct) (auto split: if_splits list.splits)

lemma LoadStringToken_length:
  "LoadStringToken inp = Inr (t, inp') \<Longrightarrow> length (buf inp') < length (buf inp)"
proof -
  assume a: "LoadStringToken inp = Inr (t, inp')"
  then obtain q rest s where d: "dropWhile isspace (buf inp) = q # rest"
    and l: "string_loop q rest [] = Inr (s, buf inp')"
    by (auto simp: LoadStringToken_def split: if_splits list.splits sum.splits)
  have "length (dropWhile isspace (buf inp)) \<le> length (buf inp)"
    by (rule length_dropWhile_le)
  with d string_loop_length [OF l] show ?thesis by simp
qed

lemma LoadNumberToken_length:
  assumes "LoadNumberToken inp = Inr (t, inp')" "\<not> eofbit inp" "buf inp \<noteq> []" "IsDigit (hd (buf inp))"
  shows "length (buf inp') < length (buf inp)"
proof -
  obtain r inp2 where p: "peek (inp\<lparr>buf := tl (buf inp)\<rparr>) = (r, inp2)"
    by (cases "peek (inp\<lparr>buf := tl (buf inp)\<rparr>)")
  from assms p obtain s0 s1 where d: "digits_loop (to_char r) inp2 s0 = (inp', s1)"
    by (auto simp: LoadNumberToken_def peek_good get_good to_char_def digits_loop_step split: prod.splits sum.splits)
  from p have "buf inp2 = tl (buf inp)" using buf_peek [of "inp\<lparr>buf := tl (buf inp)\<rparr>"] by simp
  with digits_loop_length [OF d] assms(3) show ?thesis by (cases "buf inp") auto
qed

lemma IsIdOpening_IsIdCharacter: "IsIdOpening c \<Longrightarrow> IsIdCharacter c"
  by (simp add: IsIdCharacter_def)

lemma LoadIdToken_length:
  assumes "LoadIdToken inp = Inr (t, inp')" "\<not> eofbit inp" "buf inp \<noteq> []" "IsIdOpening (hd (buf inp))"
  shows "length (buf inp') < length (buf inp)"
proof -
  obtain r inp2 where p: "peek (inp\<lparr>buf := tl (buf inp)\<rparr>) = (r, inp2)"
    by (cases "peek (inp\<lparr>buf := tl (buf inp)\<rparr>)")
  from assms p obtain s0 s1 where d: "id_loop (to_char r) inp2 s0 = (inp', s1)"
    by (auto simp: LoadIdToken_def peek_good get_good to_char_def id_loop_step IsIdOpening_IsIdCharacter
             split: prod.splits option.splits)
  from p have "buf inp2 = tl (buf inp)" using buf_peek [of "inp\<lparr>buf := tl (buf inp)\<rparr>"] by simp
  with id_loop_length [OF d] assms(3) show ?thesis by (cases "buf inp") auto
qed

lemma LoadOperatorsToken_length:
  assumes "LoadOperatorsToken inp = Inr (t, inp')" "\<not> eofbit inp" "buf inp \<noteq> []"
  shows "length (buf inp') < length (buf inp)"
proof -
  obtain r inp2 where p: "peek (inp\<lparr>buf := tl (buf inp)\<rparr>) = (r, inp2)"
    by (cases "peek (inp\<lparr>buf := tl (buf inp)\<rparr>)")
  then have b: "buf inp2 = tl (buf inp)" using buf_peek [of "inp\<lparr>buf := tl (buf inp)\<rparr>"] by simp
  have g: "length (buf (snd (get inp2))) \<le> length (buf inp2)" by (rule length_buf_get)
  from assms p have "inp' = inp\<lparr>buf := tl (buf inp)\<rparr> \<or> inp' = inp2 \<or> inp' = snd (get inp2)"
    by (auto simp: LoadOperatorsToken_def get_good Let_def split: if_splits)
  with b g assms(3) show ?thesis by (cases "buf inp") auto
qed

text \<open>
  \<open>Lexer::LoadToken\<close>: the scan, then the newline branch (lines 263 to 271, the only
  one that calls \<open>LoadToken\<close> again), then the rest.
\<close>

function LoadToken :: "Lexer \<Rightarrow> lexer_failure + (Token \<times> Lexer)" where
  "LoadToken L =
     (case LoadToken_scan L of
        Inl e \<Rightarrow> Inl e
      | Inr (c, L1) \<Rightarrow>
          if c = NL then
            (let L2 = L1\<lparr>input := snd (get (input L1)), new_line := True\<rparr> in
             if tokens L2 = [] \<or> last (tokens L2) = tt_Newline then LoadToken L2
             else Inr (tt_Newline, L2))
          else LoadToken_dispatch c L1)"
  by pat_completeness auto
termination
  by (relation "measure (\<lambda>L. length (buf (input L)))") (auto dest: LoadToken_scan_NL)

declare LoadToken.simps [simp del]

lemma peek_idem: "peek inp = (r, inp') \<Longrightarrow> peek inp' = (r, inp')"
  by (auto simp: peek_def split: if_splits list.splits)

text \<open>
  \<open>synced c inp\<close>: \<open>c\<close> is what \<open>peek\<close> gives on \<open>inp\<close> and peeking changes
  nothing any more. Every \<open>c\<close> the scanner holds is in this relation to its stream.
\<close>

definition synced :: "char \<Rightarrow> istream \<Rightarrow> bool" where
  "synced c inp = (peek inp = (fst (peek inp), inp) \<and> c = to_char (fst (peek inp)))"

lemma synced_peek: "peek inp = (r, inp') \<Longrightarrow> synced (to_char r) inp'"
  by (auto simp: synced_def dest: peek_idem)

lemma spaces_loop_synced:
  "spaces_loop c inp n = (c', inp', n') \<Longrightarrow> synced c inp \<Longrightarrow> synced c' inp'"
proof (induction c inp n rule: spaces_loop.induct)
  case (1 c inp counter)
  show ?case
  proof (cases "c = CHR '' ''")
    case True
    obtain r inp1 where p: "peek (snd (get inp)) = (r, inp1)"
      by (cases "peek (snd (get inp))")
    from "1.prems" True p have "spaces_loop (to_char r) inp1 (counter + 1) = (c', inp', n')"
      by (simp add: spaces_loop_space)
    with "1.IH" True p synced_peek [OF p] show ?thesis by simp
  next
    case False
    with "1.prems" show ?thesis by (simp add: spaces_loop_other)
  qed
qed

lemma synced_NL: "synced NL inp \<Longrightarrow> peek inp = (Some NL, inp)"
  by (cases "fst (peek inp)") (auto simp: synced_def to_char_def NL_def)

lemma LoadToken_scan_at_NL:
  assumes "peek (input L) = (Some NL, input L)"
  shows "(case peek (input L) of (r, inp0) \<Rightarrow>
             case spaces_loop (to_char r) inp0 0 of (c1, inp1, _) \<Rightarrow>
               case (if c1 = CHR ''#'' then comment_loop c1 inp1 else (c1, inp1)) of (_, inp2) \<Rightarrow>
                 case peek inp2 of (r3, inp3) \<Rightarrow> Inr (to_char r3, L\<lparr>input := inp3\<rparr>))
         = (Inr (NL, L) :: lexer_failure + (char \<times> Lexer))"
  using assms by (simp add: to_char_def spaces_loop_other NL_def)

lemma LoadToken_scan_new_line:
  assumes "LoadToken_scan L = Inr (c, L1)" and "c \<noteq> NL"
  shows "\<not> new_line L1"
proof (cases "new_line L")
  case False
  with assms(1) show ?thesis
    by (auto simp: LoadToken_scan_def split: prod.splits)
next
  case True
  with assms(1) obtain L0 where ci: "CalculateIndent L = Inr L0"
    by (cases "CalculateIndent L") (auto simp: LoadToken_scan_def)
  obtain r inp0 where p: "peek (input L) = (r, inp0)"
    by (cases "peek (input L)")
  obtain c0 inp' n where s: "spaces_loop (to_char r) inp0 0 = (c0, inp', n)"
    by (cases "spaces_loop (to_char r) inp0 0")
  have sy: "synced c0 inp'"
    using spaces_loop_synced [OF s synced_peek [OF p]] .
  show ?thesis
  proof (cases "c0 = NL")
    case c0: True
    with ci p s have L0: "L0 = L\<lparr>input := inp'\<rparr>"
      by (simp add: CalculateIndent_def)
    from sy c0 have pk: "peek (input L0) = (Some NL, input L0)"
      by (simp add: L0 synced_NL)
    from assms(1) True ci have "c = NL"
      using LoadToken_scan_at_NL [OF pk] by (simp add: LoadToken_scan_def)
    with assms(2) show ?thesis by simp
  next
    case False
    with ci p s have "\<not> new_line L0"
      by (auto simp: CalculateIndent_def Let_def split: if_splits)
    with assms(1) True ci show ?thesis
      by (auto simp: LoadToken_scan_def split: prod.splits)
  qed
qed

lemma LoadToken_scan_tokens:
  "LoadToken_scan L = Inr (c, L1) \<Longrightarrow> \<not> new_line L \<Longrightarrow> tokens L1 = tokens L"
  by (auto simp: LoadToken_scan_def split: prod.splits)

lemma LoadToken_dispatch_length:
  assumes "LoadToken_dispatch c L = Inr (t, L')" "\<not> eofbit (input L)" "buf (input L) \<noteq> []"
    "hd (buf (input L)) = c"
  shows "length (buf (input L')) < length (buf (input L))"
  using assms
  by (auto simp: LoadToken_dispatch_def lift_token_def
           dest: LoadStringToken_length LoadNumberToken_length LoadIdToken_length LoadOperatorsToken_length
           split: if_splits sum.splits)

lemma LoadToken_dispatch_eof:
  assumes "LoadToken_dispatch c L = Inr (t, L')" "eofbit (input L)"
  shows "L' = L \<and> (t = tt_Eof \<or> (t = tt_Newline \<and> tokens L \<noteq> [] \<and> last (tokens L) \<noteq> tt_Newline))"
  using assms by (auto simp: LoadToken_dispatch_def split: if_splits)

lemma LoadToken_progress:
  "LoadToken L = Inr (t, L') \<Longrightarrow>
     length (buf (input L')) < length (buf (input L)) \<or>
     (length (buf (input L')) \<le> length (buf (input L)) \<and> \<not> new_line L' \<and>
      (t = tt_Eof \<or> (t = tt_Newline \<and> \<not> (\<not> new_line L \<and> tokens L \<noteq> [] \<and> last (tokens L) = tt_Newline))))"
proof (induction L rule: LoadToken.induct)
  case (1 L)
  from "1.prems" obtain c L1 where sc: "LoadToken_scan L = Inr (c, L1)"
    by (cases "LoadToken_scan L") (auto simp: LoadToken.simps [of L])
  show ?case
  proof (cases "c = NL")
    case True
    define L2 where "L2 = L1\<lparr>input := snd (get (input L1)), new_line := True\<rparr>"
    have lt: "length (buf (input L2)) < length (buf (input L))"
      using LoadToken_scan_NL sc True by (simp add: L2_def)
    show ?thesis
    proof (cases "tokens L2 = [] \<or> last (tokens L2) = tt_Newline")
      case rec: True
      with "1.prems" sc True have "LoadToken L2 = Inr (t, L')"
        by (simp add: LoadToken.simps [of L] L2_def Let_def)
      with "1.IH" [OF sc refl True L2_def rec]
      have "length (buf (input L')) \<le> length (buf (input L2))"
        by auto
      with lt show ?thesis by simp
    next
      case False
      with "1.prems" sc True have "L' = L2"
        by (auto simp: LoadToken.simps [of L] L2_def Let_def)
      with lt show ?thesis by simp
    qed
  next
    case False
    with "1.prems" sc have d: "LoadToken_dispatch c L1 = Inr (t, L')"
      by (simp add: LoadToken.simps [of L])
    have le: "length (buf (input L1)) \<le> length (buf (input L))"
      using sc by (rule LoadToken_scan_length)
    show ?thesis
    proof (cases "eofbit (input L1)")
      case True
      from LoadToken_dispatch_eof [OF d True] LoadToken_scan_new_line [OF sc False]
        LoadToken_scan_tokens [OF sc] le
      show ?thesis by auto
    next
      case False
      from LoadToken_scan_good [OF sc False] LoadToken_dispatch_length [OF d False] le
      show ?thesis by auto
    qed
  qed
qed

text \<open>
  The constructor: \<open>while (tokens_.empty() || !tokens_.back().Is<Eof>())
  tokens_.push_back(LoadToken());\<close>. It ends because a call of \<open>LoadToken\<close> either
  reads a character or is at the end of the input, where the second call at the latest
  returns \<open>Eof\<close>: \<open>ctor_rank\<close> counts those calls.
\<close>

definition ctor_rank :: "Lexer \<Rightarrow> nat" where
  "ctor_rank L =
     (if tokens L \<noteq> [] \<and> last (tokens L) = tt_Eof then 0
      else if \<not> new_line L \<and> tokens L \<noteq> [] \<and> last (tokens L) = tt_Newline then 1 else 2)"

function Lexer_loop :: "Lexer \<Rightarrow> lexer_failure + Lexer" where
  "Lexer_loop L =
     (if tokens L = [] \<or> last (tokens L) \<noteq> tt_Eof then
        (case LoadToken L of
           Inl e \<Rightarrow> Inl e
         | Inr (t, L') \<Rightarrow> Lexer_loop (L'\<lparr>tokens := tokens L' @ [t]\<rparr>))
      else Inr L)"
  by pat_completeness auto
termination
proof (relation "measure (\<lambda>L. 3 * length (buf (input L)) + ctor_rank L)")
  show "wf (measure (\<lambda>L. 3 * length (buf (input L)) + ctor_rank L))" by simp
next
  fix L :: Lexer and x2 t L'
  assume c: "tokens L = [] \<or> last (tokens L) \<noteq> tt_Eof" and l: "LoadToken L = Inr x2" and x: "(t, L') = x2"
  from l x have "LoadToken L = Inr (t, L')" by simp
  from LoadToken_progress [OF this] c
  show "(L'\<lparr>tokens := tokens L' @ [t]\<rparr>, L) \<in> measure (\<lambda>L. 3 * length (buf (input L)) + ctor_rank L)"
    by (auto simp: ctor_rank_def)
qed

declare Lexer_loop.simps [simp del]

definition Lexer_new :: "string \<Rightarrow> lexer_failure + Lexer" where
  "Lexer_new src =
     Lexer_loop \<lparr>input = \<lparr>buf = src, eofbit = False\<rparr>, tokens = [], current_indent = 0,
                 new_line = True\<rparr>"

text \<open>The token buffer a source text is scanned to, or what stopped the scan.\<close>

definition Lexer_tokens :: "string \<Rightarrow> lexer_failure + Token list" where
  "Lexer_tokens src = (case Lexer_new src of Inl e \<Rightarrow> Inl e | Inr L \<Rightarrow> Inr (tokens L))"

section \<open>The runtime (runtime.cpp) and the statements (statement.cpp)\<close>

subsection \<open>Statements, classes and methods\<close>

text \<open>
  \<open>Comparison\<close> holds a \<open>Comparator\<close>, a \<open>std::function\<close>; the six comparators of the
  runtime are the ones it is built with.
\<close>

datatype Comparator =
    cmp_Equal | cmp_NotEqual | cmp_Less | cmp_Greater | cmp_LessOrEqual | cmp_GreaterOrEqual

text \<open>
  The statement classes that \<open>statement.cpp\<close> defines, one constructor each with the
  members of the class as arguments (\<open>Not\<close> is \<open>Not_ast\<close> here), together with
  \<open>runtime::Class\<close> and \<open>runtime::Method\<close>: a method owns its body and
  \<open>NewInstance\<close> and \<open>ClassDefinition\<close> refer to a class, so the three types are
  declared together. A class is immutable once built, so its parent pointer is modelled
  by the parent itself. \<open>FieldAssignment\<close> holds its object as a \<open>VariableValue\<close>,
  given by its dotted identifiers.
\<close>

datatype Statement =
    Assignment string Statement
  | VariableValue "string list"
  | Print "Statement list"
  | MethodCall Statement string "Statement list"
  | Stringify Statement
  | Add Statement Statement
  | Sub Statement Statement
  | Mult Statement Statement
  | Div Statement Statement
  | Compound "Statement list"
  | Return Statement
  | ClassDefinition Class
  | FieldAssignment "string list" string Statement
  | IfElse Statement Statement "Statement option"
  | Or Statement Statement
  | And Statement Statement
  | Not_ast Statement
  | Comparison Comparator Statement Statement
  | NewInstance Class "Statement list"
  | MethodBody Statement
and Class =
    Class (Class_name: string) (Class_methods: "Method list") (Class_parent: "Class option")
and Method =
    Method (Method_name: string) (Method_formal_params: "string list") (Method_body: Statement)

subsection \<open>Objects and their holders\<close>

text \<open>
  Modelled from the spec: the value kinds and \<open>ObjectHolder\<close> are declared in
  \<open>runtime.h\<close>, which is not among the sources (section 3 of the specification).
  \<open>Number\<close>, \<open>String\<close> and \<open>Bool\<close> objects are immutable and are held by value. A
  \<open>ClassInstance\<close> is the one object that is mutated through aliases: it is its class
  and the address of its field map in the heap. An \<open>ObjectHolder\<close> is empty, or was
  made by \<open>ObjectHolder::Own\<close>, or by \<open>ObjectHolder::Share\<close>.
\<close>

datatype Object =
    Number int
  | String string
  | Bool bool
  | ClassObject Class
  | ClassInstance Class nat

datatype ObjectHolder = EmptyHolder | Own Object | Share Object

type_synonym Closure = "(string \<times> ObjectHolder) list"

text \<open>
  What stops an execution: a \<open>std::runtime_error\<close> with its message, the
  \<open>ReturnException\<close> of a \<open>return\<close> statement, a failed \<open>assert\<close>, the
  dereference of the null pointer that \<open>TryAs\<close> returns for an object of another kind
  (undefined behaviour in C++, a crash here), and the division \<open>INT_MIN / -1\<close>, whose
  quotient is not an \<open>int\<close> (undefined behaviour in C++, the trap of the division
  instruction here). \<open>out_of_fuel\<close> is not a behaviour of the program: it marks an
  execution cut off by the bound on the nesting of \<open>Execute\<close>.
\<close>

datatype exn =
    runtime_error string
  | ReturnException ObjectHolder
  | assert_failed
  | null_dereference
  | division_overflow
  | out_of_fuel

text \<open>
  What an execution changes besides the closure it is given: the field maps of the class
  instances, by address (nothing is ever freed, so a \<open>Share\<close> holder never dangles here),
  and the text written to \<open>context.GetOutputStream()\<close>.
\<close>

record State =
  heap :: "Closure list"
  output_stream :: string

text \<open>
  \<open>ObjectHolder::Get\<close> (\<open>runtime.cpp\<close>): the object the holder points to, or nothing.
\<close>

definition Get :: "ObjectHolder \<Rightarrow> Object option" where
  "Get h = (case h of EmptyHolder \<Rightarrow> None | Own obj \<Rightarrow> Some obj | Share obj \<Rightarrow> Some obj)"

text \<open>
  Modelled from the spec: \<open>ObjectHolder::TryAs<T>\<close> is defined in \<open>runtime.h\<close>, which is
  not among the sources. It is the downcast of \<open>Get\<close>, which returns nothing for an empty
  holder and for an object of another kind.
\<close>

definition TryAs_Bool :: "ObjectHolder \<Rightarrow> bool option" where
  "TryAs_Bool h = (case Get h of Some (Bool b) \<Rightarrow> Some b | _ \<Rightarrow> None)"

definition TryAs_Number :: "ObjectHolder \<Rightarrow> int option" where
  "TryAs_Number h = (case Get h of Some (Number v) \<Rightarrow> Some v | _ \<Rightarrow> None)"

definition TryAs_String :: "ObjectHolder \<Rightarrow> string option" where
  "TryAs_String h = (case Get h of Some (String s) \<Rightarrow> Some s | _ \<Rightarrow> None)"

definition TryAs_ClassInstance :: "ObjectHolder \<Rightarrow> (Class \<times> nat) option" where
  "TryAs_ClassInstance h = (case Get h of Some (ClassInstance cls a) \<Rightarrow> Some (cls, a) | _ \<Rightarrow> None)"

text \<open>
  \<open>ObjectHolder::Share(*h.Get())\<close>, as \<open>Assignment\<close> and \<open>FieldAssignment\<close> return
  it. For an empty \<open>h\<close> the holder made this way holds the null pointer, that is, it is
  empty.
\<close>

definition Share_of :: "ObjectHolder \<Rightarrow> ObjectHolder" where
  "Share_of h = (case Get h of None \<Rightarrow> EmptyHolder | Some obj \<Rightarrow> Share obj)"

subsection \<open>Classes\<close>

text \<open>
  \<open>Class::GetMethod\<close>: \<open>std::find_if\<close> over the class's own methods, then the
  parent's \<open>GetMethod\<close>.
\<close>

fun GetMethod :: "Class \<Rightarrow> string \<Rightarrow> Method option" where
  "GetMethod (Class nm ms p) n =
     (case find (\<lambda>m. Method_name m = n) ms of
        Some m \<Rightarrow> Some m
      | None \<Rightarrow> (case p of None \<Rightarrow> None | Some pc \<Rightarrow> GetMethod pc n))"

text \<open>\<open>ClassInstance::HasMethod\<close>, on the class of the instance.\<close>

definition HasMethod :: "Class \<Rightarrow> string \<Rightarrow> nat \<Rightarrow> bool" where
  "HasMethod cls method_name argument_count =
     (case GetMethod cls method_name of
        Some m \<Rightarrow> length (Method_formal_params m) = argument_count
      | None \<Rightarrow> False)"

subsection \<open>Numbers and text\<close>

text \<open>
  \<open>Number\<close> holds an \<open>int\<close>. Signed overflow of \<open>+\<close>, \<open>-\<close> and \<open>*\<close>, undefined in
  C++, is modelled by wrapping to 32 bits; \<open>/\<close> truncates towards zero.
\<close>

definition int32 :: "int \<Rightarrow> int" where
  "int32 v = (v + 2147483648) mod 4294967296 - 2147483648"

definition truncated_div :: "int \<Rightarrow> int \<Rightarrow> int" where
  "truncated_div a b = sgn a * sgn b * (\<bar>a\<bar> div \<bar>b\<bar>)"

text \<open>
  Modelled from the spec: \<open>Number::Print\<close> and \<open>String::Print\<close> are defined in
  \<open>runtime.h\<close> and write the value to the stream; a number is written in decimal. An
  instance without \<open>__str__\<close> prints \<open>this\<close>, a pointer, whose text the C++
  implementation chooses: \<open>pointer_text\<close> stands for it.
\<close>

fun nat_text :: "nat \<Rightarrow> string" where
  "nat_text n =
     (if n < 10 then [char_of (48 + n)] else nat_text (n div 10) @ [char_of (48 + n mod 10)])"

definition int_text :: "int \<Rightarrow> string" where
  "int_text v = (if v < 0 then ''-'' @ nat_text (nat (- v)) else nat_text (nat v))"

definition pointer_text :: "nat \<Rightarrow> string" where
  "pointer_text a = ''0x'' @ nat_text a"

subsection \<open>Closures and fields\<close>

text \<open>\<open>ClassInstance::Fields()\<close> of the instance at an address, read and written.\<close>

definition Fields :: "State \<Rightarrow> nat \<Rightarrow> Closure" where
  "Fields st a = (if a < length (heap st) then heap st ! a else [])"

definition set_Fields :: "State \<Rightarrow> nat \<Rightarrow> Closure \<Rightarrow> State" where
  "set_Fields st a closure = st\<lparr>heap := (heap st)[a := closure]\<rparr>"

text \<open>
  \<open>VariableValue::Execute\<close>: the first identifiers are looked up and followed through
  the fields of the instances they name, the last one is looked up and returned.
  \<open>ids_.back()\<close> of an empty list of identifiers is undefined behaviour, a crash here.
\<close>

definition undefined_identifier :: "string \<Rightarrow> exn" where
  "undefined_identifier x = runtime_error (''Identifier '' @ [CHR 0x27] @ x @ [CHR 0x27] @ '' is undefined'')"

fun VariableValue_walk :: "string list \<Rightarrow> Closure \<Rightarrow> State \<Rightarrow> exn + ObjectHolder" where
  "VariableValue_walk [] closure st = Inl null_dereference"
| "VariableValue_walk [x] closure st =
     (case map_of closure x of None \<Rightarrow> Inl (undefined_identifier x) | Some v \<Rightarrow> Inr v)"
| "VariableValue_walk (x # y # ys) closure st =
     (case map_of closure x of
        None \<Rightarrow> Inl (undefined_identifier x)
      | Some v \<Rightarrow>
          (case TryAs_ClassInstance v of
             None \<Rightarrow> Inl null_dereference
           | Some (cls, a) \<Rightarrow> VariableValue_walk (y # ys) (Fields st a) st))"

text \<open>
  The closure \<open>ClassInstance::Call\<close> builds: empty, then
  \<open>closure[formal_params[i]] = actual_args[i]\<close> in order, then \<open>closure["self"]\<close>.
\<close>

definition Call_closure :: "string list \<Rightarrow> ObjectHolder list \<Rightarrow> ObjectHolder \<Rightarrow> Closure" where
  "Call_closure formal_params actual_args self =
     AList.update ''self'' self
       (foldl (\<lambda>closure (k, v). AList.update k v closure) [] (zip formal_params actual_args))"

subsection \<open>The runtime functions\<close>

text \<open>
  The runtime runs a method through the virtual \<open>Executable::Execute\<close> of its body and
  knows no statement class. Its functions take that operation as the parameter
  \<open>exec\<close>; \<open>Execute\<close> below passes itself.
\<close>

type_synonym executor =
  "Statement \<Rightarrow> Closure \<Rightarrow> State \<Rightarrow> (exn + ObjectHolder) \<times> Closure \<times> State"

definition Call ::
  "executor \<Rightarrow> Class \<Rightarrow> nat \<Rightarrow> string \<Rightarrow> ObjectHolder list \<Rightarrow> State \<Rightarrow> (exn + ObjectHolder) \<times> State" where
  "Call exec cls a method_name actual_args st =
     (case GetMethod cls method_name of
        None \<Rightarrow> (Inl (runtime_error ''Not implemented''), st)
      | Some m \<Rightarrow>
          if length (Method_formal_params m) \<noteq> length actual_args
          then (Inl (runtime_error ''Not implemented''), st)
          else
            (case exec (Method_body m)
                    (Call_closure (Method_formal_params m) actual_args (Share (ClassInstance cls a))) st of
               (r, c1, st1) \<Rightarrow> (r, st1)))"

text \<open>
  The templates \<open>Equal<T>\<close> and \<open>Less<T>\<close>: the comparison of the values when both
  holders hold a \<open>T\<close>, nothing otherwise. Strings compare as \<open>std::string\<close> does, byte
  by byte.
\<close>

definition Equal_Bool :: "ObjectHolder \<Rightarrow> ObjectHolder \<Rightarrow> bool option" where
  "Equal_Bool lhs rhs =
     (case TryAs_Bool lhs of None \<Rightarrow> None
      | Some a \<Rightarrow> (case TryAs_Bool rhs of None \<Rightarrow> None | Some b \<Rightarrow> Some (a = b)))"

definition Equal_Number :: "ObjectHolder \<Rightarrow> ObjectHolder \<Rightarrow> bool option" where
  "Equal_Number lhs rhs =
     (case TryAs_Number lhs of None \<Rightarrow> None
      | Some a \<Rightarrow> (case TryAs_Number rhs of None \<Rightarrow> None | Some b \<Rightarrow> Some (a = b)))"

definition Equal_String :: "ObjectHolder \<Rightarrow> ObjectHolder \<Rightarrow> bool option" where
  "Equal_String lhs rhs =
     (case TryAs_String lhs of None \<Rightarrow> None
      | Some a \<Rightarrow> (case TryAs_String rhs of None \<Rightarrow> None | Some b \<Rightarrow> Some (a = b)))"

definition Less_Bool :: "ObjectHolder \<Rightarrow> ObjectHolder \<Rightarrow> bool option" where
  "Less_Bool lhs rhs =
     (case TryAs_Bool lhs of None \<Rightarrow> None
      | Some a \<Rightarrow> (case TryAs_Bool rhs of None \<Rightarrow> None | Some b \<Rightarrow> Some (a < b)))"

definition Less_Number :: "ObjectHolder \<Rightarrow> ObjectHolder \<Rightarrow> bool option" where
  "Less_Number lhs rhs =
     (case TryAs_Number lhs of None \<Rightarrow> None
      | Some a \<Rightarrow> (case TryAs_Number rhs of None \<Rightarrow> None | Some b \<Rightarrow> Some (a < b)))"

definition Less_String :: "ObjectHolder \<Rightarrow> ObjectHolder \<Rightarrow> bool option" where
  "Less_String lhs rhs =
     (case TryAs_String lhs of None \<Rightarrow> None
      | Some a \<Rightarrow> (case TryAs_String rhs of None \<Rightarrow> None | Some b \<Rightarrow> Some (lexordp (<) a b)))"

definition Equal ::
  "executor \<Rightarrow> ObjectHolder \<Rightarrow> ObjectHolder \<Rightarrow> State \<Rightarrow> (exn + bool) \<times> State" where
  "Equal exec lhs rhs st =
     (if Get lhs = None \<and> Get rhs = None then (Inr True, st)
      else case Equal_Bool lhs rhs of Some bool_result \<Rightarrow> (Inr bool_result, st) | None \<Rightarrow>
           case Equal_Number lhs rhs of Some number_result \<Rightarrow> (Inr number_result, st) | None \<Rightarrow>
           case Equal_String lhs rhs of Some string_result \<Rightarrow> (Inr string_result, st) | None \<Rightarrow>
           case TryAs_ClassInstance lhs of
             Some (cls, a) \<Rightarrow>
               (case Call exec cls a ''__eq__'' [rhs] st of
                  (Inl e, st1) \<Rightarrow> (Inl e, st1)
                | (Inr r, st1) \<Rightarrow>
                    (case TryAs_Bool r of
                       None \<Rightarrow> (Inl null_dereference, st1)
                     | Some b \<Rightarrow> (Inr b, st1)))
           | None \<Rightarrow> (Inl (runtime_error ''Cannot compare objects for equality''), st))"

definition Less ::
  "executor \<Rightarrow> ObjectHolder \<Rightarrow> ObjectHolder \<Rightarrow> State \<Rightarrow> (exn + bool) \<times> State" where
  "Less exec lhs rhs st =
     (case Less_Bool lhs rhs of Some bool_result \<Rightarrow> (Inr bool_result, st) | None \<Rightarrow>
      case Less_Number lhs rhs of Some number_result \<Rightarrow> (Inr number_result, st) | None \<Rightarrow>
      case Less_String lhs rhs of Some string_result \<Rightarrow> (Inr string_result, st) | None \<Rightarrow>
      case TryAs_ClassInstance lhs of
        Some (cls, a) \<Rightarrow>
          (case Call exec cls a ''__lt__'' [rhs] st of
             (Inl e, st1) \<Rightarrow> (Inl e, st1)
           | (Inr r, st1) \<Rightarrow>
               (case TryAs_Bool r of
                  None \<Rightarrow> (Inl null_dereference, st1)
                | Some b \<Rightarrow> (Inr b, st1)))
      | None \<Rightarrow> (Inl (runtime_error ''Cannot compare objects for less''), st))"

definition NotEqual ::
  "executor \<Rightarrow> ObjectHolder \<Rightarrow> ObjectHolder \<Rightarrow> State \<Rightarrow> (exn + bool) \<times> State" where
  "NotEqual exec lhs rhs st =
     (case Equal exec lhs rhs st of
        (Inl e, st1) \<Rightarrow> (Inl e, st1)
      | (Inr eq, st1) \<Rightarrow> (Inr (\<not> eq), st1))"

definition Greater ::
  "executor \<Rightarrow> ObjectHolder \<Rightarrow> ObjectHolder \<Rightarrow> State \<Rightarrow> (exn + bool) \<times> State" where
  "Greater exec lhs rhs st =
     (case Less exec lhs rhs st of
        (Inl e, st1) \<Rightarrow> (Inl e, st1)
      | (Inr lt, st1) \<Rightarrow>
          if \<not> lt then
            (case Equal exec lhs rhs st1 of
               (Inl e, st2) \<Rightarrow> (Inl e, st2)
             | (Inr eq, st2) \<Rightarrow> (Inr (\<not> eq), st2))
          else (Inr False, st1))"

definition LessOrEqual ::
  "executor \<Rightarrow> ObjectHolder \<Rightarrow> ObjectHolder \<Rightarrow> State \<Rightarrow> (exn + bool) \<times> State" where
  "LessOrEqual exec lhs rhs st =
     (case Less exec lhs rhs st of
        (Inl e, st1) \<Rightarrow> (Inl e, st1)
      | (Inr lt, st1) \<Rightarrow>
          if lt then (Inr True, st1)
          else
            (case Equal exec lhs rhs st1 of
               (Inl e, st2) \<Rightarrow> (Inl e, st2)
             | (Inr eq, st2) \<Rightarrow> (Inr eq, st2)))"

definition GreaterOrEqual ::
  "executor \<Rightarrow> ObjectHolder \<Rightarrow> ObjectHolder \<Rightarrow> State \<Rightarrow> (exn + bool) \<times> State" where
  "GreaterOrEqual exec lhs rhs st =
     (case Less exec lhs rhs st of
        (Inl e, st1) \<Rightarrow> (Inl e, st1)
      | (Inr lt, st1) \<Rightarrow> (Inr (\<not> lt), st1))"

text \<open>\<open>runtime::IsTrue\<close>. No statement of \<open>statement.cpp\<close> calls it.\<close>

definition IsTrue :: "ObjectHolder \<Rightarrow> bool" where
  "IsTrue object =
     (case TryAs_Bool object of Some b \<Rightarrow> b | None \<Rightarrow>
      case TryAs_Number object of Some v \<Rightarrow> v \<noteq> 0 | None \<Rightarrow>
      case TryAs_String object of Some s \<Rightarrow> s \<noteq> [] | None \<Rightarrow> False)"

text \<open>
  \<open>Object::Print\<close>, returning the text it writes to \<open>os\<close>. \<open>ClassInstance::Print\<close>
  prints what \<open>__str__\<close> returns, which may be an instance again: \<open>k\<close> bounds that
  chain. \<open>operator->\<close> on the returned holder asserts that it is not empty.
\<close>

fun Object_Print :: "nat \<Rightarrow> executor \<Rightarrow> Object \<Rightarrow> State \<Rightarrow> (exn + string) \<times> State" where
  "Object_Print k exec (Number v) st = (Inr (int_text v), st)"
| "Object_Print k exec (String s) st = (Inr s, st)"
| "Object_Print k exec (Bool b) st = (Inr (if b then ''True'' else ''False''), st)"
| "Object_Print k exec (ClassObject cls) st = (Inr (''Class '' @ Class_name cls), st)"
| "Object_Print 0 exec (ClassInstance cls a) st =
     (if HasMethod cls ''__str__'' 0 then (Inl out_of_fuel, st) else (Inr (pointer_text a), st))"
| "Object_Print (Suc k) exec (ClassInstance cls a) st =
     (if HasMethod cls ''__str__'' 0 then
        (case Call exec cls a ''__str__'' [] st of
           (Inl e, st1) \<Rightarrow> (Inl e, st1)
         | (Inr r, st1) \<Rightarrow>
             (case Get r of
                None \<Rightarrow> (Inl assert_failed, st1)
              | Some obj \<Rightarrow> Object_Print k exec obj st1))
      else (Inr (pointer_text a), st))"

subsection \<open>The statements\<close>

type_synonym printer = "Object \<Rightarrow> State \<Rightarrow> (exn + string) \<times> State"

text \<open>
  The loops over argument and statement lists: \<open>GetActualArgs\<close>, the loop of
  \<open>Print::Execute\<close> (with its flag \<open>first\<close> and the text in \<open>os\<close>) and the loop of
  \<open>Compound::Execute\<close>.
\<close>

fun GetActualArgs ::
  "executor \<Rightarrow> Statement list \<Rightarrow> Closure \<Rightarrow> State \<Rightarrow> (exn + ObjectHolder list) \<times> Closure \<times> State" where
  "GetActualArgs exec [] closure st = (Inr [], closure, st)"
| "GetActualArgs exec (arg # args) closure st =
     (case exec arg closure st of
        (Inl e, c1, st1) \<Rightarrow> (Inl e, c1, st1)
      | (Inr v, c1, st1) \<Rightarrow>
          (case GetActualArgs exec args c1 st1 of
             (Inl e, c2, st2) \<Rightarrow> (Inl e, c2, st2)
           | (Inr vs, c2, st2) \<Rightarrow> (Inr (v # vs), c2, st2)))"

fun Print_args ::
  "executor \<Rightarrow> printer \<Rightarrow> Statement list \<Rightarrow> bool \<Rightarrow> string \<Rightarrow> Closure \<Rightarrow> State \<Rightarrow>
   (exn + string) \<times> Closure \<times> State" where
  "Print_args exec print [] first os closure st = (Inr os, closure, st)"
| "Print_args exec print (arg # args) first os closure st =
     (case exec arg closure st of
        (Inl e, c1, st1) \<Rightarrow> (Inl e, c1, st1)
      | (Inr oh, c1, st1) \<Rightarrow>
          (case Get oh of
             None \<Rightarrow>
               Print_args exec print args False ((if first then os else os @ '' '') @ ''None'') c1 st1
           | Some obj \<Rightarrow>
               (case print obj st1 of
                  (Inl e, st2) \<Rightarrow> (Inl e, c1, st2)
                | (Inr text, st2) \<Rightarrow>
                    Print_args exec print args False ((if first then os else os @ '' '') @ text) c1 st2)))"

fun Compound_stmts ::
  "executor \<Rightarrow> Statement list \<Rightarrow> Closure \<Rightarrow> State \<Rightarrow> (exn + unit) \<times> Closure \<times> State" where
  "Compound_stmts exec [] closure st = (Inr (), closure, st)"
| "Compound_stmts exec (stmt # stmts) closure st =
     (case exec stmt closure st of
        (Inl e, c1, st1) \<Rightarrow> (Inl e, c1, st1)
      | (Inr _, c1, st1) \<Rightarrow> Compound_stmts exec stmts c1 st1)"

definition AddSame_Number :: "ObjectHolder \<Rightarrow> ObjectHolder \<Rightarrow> ObjectHolder option" where
  "AddSame_Number lhs rhs =
     (case TryAs_Number lhs of None \<Rightarrow> None
      | Some a \<Rightarrow> (case TryAs_Number rhs of None \<Rightarrow> None | Some b \<Rightarrow> Some (Own (Number (int32 (a + b))))))"

definition AddSame_String :: "ObjectHolder \<Rightarrow> ObjectHolder \<Rightarrow> ObjectHolder option" where
  "AddSame_String lhs rhs =
     (case TryAs_String lhs of None \<Rightarrow> None
      | Some a \<Rightarrow> (case TryAs_String rhs of None \<Rightarrow> None | Some b \<Rightarrow> Some (Own (String (a @ b)))))"

text \<open>The static \<open>IsTrue\<close> of \<open>statement.cpp\<close>, which \<open>Or\<close> and \<open>And\<close> call.\<close>

definition IsTrue_ast :: "executor \<Rightarrow> ObjectHolder \<Rightarrow> State \<Rightarrow> (exn + bool) \<times> State" where
  "IsTrue_ast exec obj st = Equal exec obj (Own (Bool True)) st"

definition apply_Comparator ::
  "Comparator \<Rightarrow> executor \<Rightarrow> ObjectHolder \<Rightarrow> ObjectHolder \<Rightarrow> State \<Rightarrow> (exn + bool) \<times> State" where
  "apply_Comparator cmp =
     (case cmp of
        cmp_Equal \<Rightarrow> Equal
      | cmp_NotEqual \<Rightarrow> NotEqual
      | cmp_Less \<Rightarrow> Less
      | cmp_Greater \<Rightarrow> Greater
      | cmp_LessOrEqual \<Rightarrow> LessOrEqual
      | cmp_GreaterOrEqual \<Rightarrow> GreaterOrEqual)"

text \<open>
  \<open>if (ObjectHolder r = body->Execute(closure, context)) return r;\<close> followed by the
  final \<open>return {}\<close> of \<open>IfElse::Execute\<close>.
\<close>

definition if_branch ::
  "(exn + ObjectHolder) \<times> Closure \<times> State \<Rightarrow> (exn + ObjectHolder) \<times> Closure \<times> State" where
  "if_branch r =
     (case r of
        (Inl e, c2, st2) \<Rightarrow> (Inl e, c2, st2)
      | (Inr v, c2, st2) \<Rightarrow> if Get v \<noteq> None then (Inr v, c2, st2) else (Inr EmptyHolder, c2, st2))"

text \<open>
  \<open>Execute\<close> of every statement class, with \<open>exec\<close> for the \<open>Execute\<close> of the nested
  statements and \<open>print\<close> for \<open>Object::Print\<close>. An exception leaves with the closure and
  the state as they are when it is thrown. In an assignment the right-hand side is
  evaluated first (C++17). The order in which \<open>Comparison\<close> evaluates the two arguments
  of \<open>cmp_\<close> is unspecified in C++; it is the order of g++ here, which evaluates the
  arguments of a call from the last to the first, so the right operand runs before the
  left one. \<open>Div\<close> divides two \<open>int\<close>s: the quotient is truncated towards zero, and
  \<open>INT_MIN / -1\<close> is the one division of a nonzero divisor that has no result.
\<close>

definition Execute_step :: "executor \<Rightarrow> printer \<Rightarrow> executor" where
  "Execute_step exec print stmt closure st =
  (case stmt of
    Assignment var rv \<Rightarrow>
     (case exec rv closure st of
        (Inl e, c1, st1) \<Rightarrow> (Inl e, c1, st1)
      | (Inr v, c1, st1) \<Rightarrow> (Inr (Share_of v), AList.update var v c1, st1))

  | VariableValue ids \<Rightarrow>
     (VariableValue_walk ids closure st, closure, st)

  | Print args \<Rightarrow>
     (case Print_args exec print args True [] closure st of
        (Inl e, c1, st1) \<Rightarrow> (Inl e, c1, st1)
      | (Inr os, c1, st1) \<Rightarrow>
          (Inr (Own (String (os @ [NL]))), c1,
           st1\<lparr>output_stream := output_stream st1 @ os @ [NL]\<rparr>))

  | MethodCall object method_name args \<Rightarrow>
     (case exec object closure st of
        (Inl e, c1, st1) \<Rightarrow> (Inl e, c1, st1)
      | (Inr oh, c1, st1) \<Rightarrow>
          (case TryAs_ClassInstance oh of
             None \<Rightarrow> (Inr EmptyHolder, c1, st1)
           | Some (cls, a) \<Rightarrow>
               if HasMethod cls method_name (length args) then
                 (case GetActualArgs exec args c1 st1 of
                    (Inl e, c2, st2) \<Rightarrow> (Inl e, c2, st2)
                  | (Inr actual_args, c2, st2) \<Rightarrow>
                      (case Call exec cls a method_name actual_args st2 of
                         (r, st3) \<Rightarrow> (r, c2, st3)))
               else (Inr EmptyHolder, c1, st1)))

  | Stringify argument \<Rightarrow>
     (case exec argument closure st of
        (Inl e, c1, st1) \<Rightarrow> (Inl e, c1, st1)
      | (Inr oh, c1, st1) \<Rightarrow>
          (case Get oh of
             None \<Rightarrow> (Inr (Own (String ''None'')), c1, st1)
           | Some obj \<Rightarrow>
               (case print obj st1 of
                  (Inl e, st2) \<Rightarrow> (Inl e, c1, st2)
                | (Inr os, st2) \<Rightarrow> (Inr (Own (String os)), c1, st2))))

  | Add lhs rhs \<Rightarrow>
     (case exec lhs closure st of
        (Inl e, c1, st1) \<Rightarrow> (Inl e, c1, st1)
      | (Inr lhs_oh, c1, st1) \<Rightarrow>
          (case exec rhs c1 st1 of
             (Inl e, c2, st2) \<Rightarrow> (Inl e, c2, st2)
           | (Inr rhs_oh, c2, st2) \<Rightarrow>
               if Get lhs_oh = None \<or> Get rhs_oh = None
               then (Inl (runtime_error ''Cannot add/concatenate objects''), c2, st2)
               else case AddSame_Number lhs_oh rhs_oh of Some numeric_result \<Rightarrow> (Inr numeric_result, c2, st2) | None \<Rightarrow>
                    case AddSame_String lhs_oh rhs_oh of Some string_result \<Rightarrow> (Inr string_result, c2, st2) | None \<Rightarrow>
                    case TryAs_ClassInstance lhs_oh of
                      Some (cls, a) \<Rightarrow>
                        if \<not> HasMethod cls ''__add__'' 1
                        then (Inl (runtime_error ''Cannot add/concatenate objects''), c2, st2)
                        else (case Call exec cls a ''__add__'' [rhs_oh] st2 of (r, st3) \<Rightarrow> (r, c2, st3))
                    | None \<Rightarrow> (Inl (runtime_error ''Cannot add/concatenate objects''), c2, st2)))

  | Sub lhs rhs \<Rightarrow>
     (case exec lhs closure st of
        (Inl e, c1, st1) \<Rightarrow> (Inl e, c1, st1)
      | (Inr lhs_oh, c1, st1) \<Rightarrow>
          (case exec rhs c1 st1 of
             (Inl e, c2, st2) \<Rightarrow> (Inl e, c2, st2)
           | (Inr rhs_oh, c2, st2) \<Rightarrow>
               (case TryAs_Number lhs_oh of None \<Rightarrow> (Inl (runtime_error ''Cannot sub objects''), c2, st2)
                | Some a \<Rightarrow>
               (case TryAs_Number rhs_oh of None \<Rightarrow> (Inl (runtime_error ''Cannot sub objects''), c2, st2)
                | Some b \<Rightarrow> (Inr (Own (Number (int32 (a - b)))), c2, st2)))))

  | Mult lhs rhs \<Rightarrow>
     (case exec lhs closure st of
        (Inl e, c1, st1) \<Rightarrow> (Inl e, c1, st1)
      | (Inr lhs_oh, c1, st1) \<Rightarrow>
          (case exec rhs c1 st1 of
             (Inl e, c2, st2) \<Rightarrow> (Inl e, c2, st2)
           | (Inr rhs_oh, c2, st2) \<Rightarrow>
               (case TryAs_Number lhs_oh of None \<Rightarrow> (Inl (runtime_error ''Cannot mult objects''), c2, st2)
                | Some a \<Rightarrow>
               (case TryAs_Number rhs_oh of None \<Rightarrow> (Inl (runtime_error ''Cannot mult objects''), c2, st2)
                | Some b \<Rightarrow> (Inr (Own (Number (int32 (a * b)))), c2, st2)))))

  | Div lhs rhs \<Rightarrow>
     (case exec lhs closure st of
        (Inl e, c1, st1) \<Rightarrow> (Inl e, c1, st1)
      | (Inr lhs_oh, c1, st1) \<Rightarrow>
          (case exec rhs c1 st1 of
             (Inl e, c2, st2) \<Rightarrow> (Inl e, c2, st2)
           | (Inr rhs_oh, c2, st2) \<Rightarrow>
               (case TryAs_Number lhs_oh of None \<Rightarrow> (Inl (runtime_error ''Cannot div objects''), c2, st2)
                | Some a \<Rightarrow>
               (case TryAs_Number rhs_oh of None \<Rightarrow> (Inl (runtime_error ''Cannot div objects''), c2, st2)
                | Some rhs_value \<Rightarrow>
                    if rhs_value = 0 then (Inl (runtime_error ''Cannot div by zero''), c2, st2)
                    else if a = - (2 ^ 31) \<and> rhs_value = - 1 then (Inl division_overflow, c2, st2)
                    else (Inr (Own (Number (int32 (truncated_div a rhs_value)))), c2, st2)))))

  | Compound stmts \<Rightarrow>
     (case Compound_stmts exec stmts closure st of
        (Inl e, c1, st1) \<Rightarrow> (Inl e, c1, st1)
      | (Inr _, c1, st1) \<Rightarrow> (Inr EmptyHolder, c1, st1))

  | Return statement \<Rightarrow>
     (case exec statement closure st of
        (Inl e, c1, st1) \<Rightarrow> (Inl e, c1, st1)
      | (Inr v, c1, st1) \<Rightarrow> (Inl (ReturnException v), c1, st1))

  | ClassDefinition cls \<Rightarrow>
     (Inr (Own (ClassObject cls)), AList.update (Class_name cls) (Own (ClassObject cls)) closure, st)

  | FieldAssignment object field_name rv \<Rightarrow>
     (case VariableValue_walk object closure st of
        Inl e \<Rightarrow> (Inl e, closure, st)
      | Inr obg \<Rightarrow>
          (case exec rv closure st of
             (Inl e, c1, st1) \<Rightarrow> (Inl e, c1, st1)
           | (Inr v, c1, st1) \<Rightarrow>
               (case TryAs_ClassInstance obg of
                  None \<Rightarrow> (Inl null_dereference, c1, st1)
                | Some (cls, a) \<Rightarrow>
                    (Inr (Share_of v), c1,
                     set_Fields st1 a (AList.update field_name v (Fields st1 a))))))

  | IfElse condition if_body else_body \<Rightarrow>
     (case exec condition closure st of
        (Inl e, c1, st1) \<Rightarrow> (Inl e, c1, st1)
      | (Inr cond, c1, st1) \<Rightarrow>
          if Get cond = None then (Inl assert_failed, c1, st1)
          else
            (case TryAs_Bool cond of
               None \<Rightarrow> (Inl null_dereference, c1, st1)
             | Some b \<Rightarrow>
                 if b then if_branch (exec if_body c1 st1)
                 else
                   (case else_body of
                      None \<Rightarrow> (Inr EmptyHolder, c1, st1)
                    | Some eb \<Rightarrow> if_branch (exec eb c1 st1))))

  | Or lhs rhs \<Rightarrow>
     (case exec lhs closure st of
        (Inl e, c1, st1) \<Rightarrow> (Inl e, c1, st1)
      | (Inr l, c1, st1) \<Rightarrow>
          (case IsTrue_ast exec l st1 of
             (Inl e, st2) \<Rightarrow> (Inl e, c1, st2)
           | (Inr lb, st2) \<Rightarrow>
               if lb then (Inr (Own (Bool True)), c1, st2)
               else
                 (case exec rhs c1 st2 of
                    (Inl e, c2, st3) \<Rightarrow> (Inl e, c2, st3)
                  | (Inr r, c2, st3) \<Rightarrow>
                      (case IsTrue_ast exec r st3 of
                         (Inl e, st4) \<Rightarrow> (Inl e, c2, st4)
                       | (Inr rb, st4) \<Rightarrow>
                           if rb then (Inr (Own (Bool True)), c2, st4)
                           else (Inr (Own (Bool False)), c2, st4)))))

  | And lhs rhs \<Rightarrow>
     (case exec lhs closure st of
        (Inl e, c1, st1) \<Rightarrow> (Inl e, c1, st1)
      | (Inr l, c1, st1) \<Rightarrow>
          (case IsTrue_ast exec l st1 of
             (Inl e, st2) \<Rightarrow> (Inl e, c1, st2)
           | (Inr lb, st2) \<Rightarrow>
               if lb then
                 (case exec rhs c1 st2 of
                    (Inl e, c2, st3) \<Rightarrow> (Inl e, c2, st3)
                  | (Inr r, c2, st3) \<Rightarrow>
                      (case IsTrue_ast exec r st3 of
                         (Inl e, st4) \<Rightarrow> (Inl e, c2, st4)
                       | (Inr rb, st4) \<Rightarrow>
                           if rb then (Inr (Own (Bool True)), c2, st4)
                           else (Inr (Own (Bool False)), c2, st4)))
               else (Inr (Own (Bool False)), c1, st2)))

  | Not_ast argument \<Rightarrow>
     (case exec argument closure st of
        (Inl e, c1, st1) \<Rightarrow> (Inl e, c1, st1)
      | (Inr v, c1, st1) \<Rightarrow>
          (case TryAs_Bool v of
             None \<Rightarrow> (Inl null_dereference, c1, st1)
           | Some b \<Rightarrow> (Inr (Own (Bool (\<not> b))), c1, st1)))

  | Comparison cmp lhs rhs \<Rightarrow>
     (case exec rhs closure st of
        (Inl e, c1, st1) \<Rightarrow> (Inl e, c1, st1)
      | (Inr r, c1, st1) \<Rightarrow>
          (case exec lhs c1 st1 of
             (Inl e, c2, st2) \<Rightarrow> (Inl e, c2, st2)
           | (Inr l, c2, st2) \<Rightarrow>
               (case apply_Comparator cmp exec l r st2 of
                  (Inl e, st3) \<Rightarrow> (Inl e, c2, st3)
                | (Inr result, st3) \<Rightarrow> (Inr (Own (Bool result)), c2, st3))))

  | NewInstance cls args \<Rightarrow>
     (let a = length (heap st); st0 = st\<lparr>heap := heap st @ [[]]\<rparr> in
      if HasMethod cls ''__init__'' (length args) then
        (case GetActualArgs exec args closure st0 of
           (Inl e, c1, st1) \<Rightarrow> (Inl e, c1, st1)
         | (Inr actual_args, c1, st1) \<Rightarrow>
             (case Call exec cls a ''__init__'' actual_args st1 of
                (Inl e, st2) \<Rightarrow> (Inl e, c1, st2)
              | (Inr _, st2) \<Rightarrow> (Inr (Own (ClassInstance cls a)), c1, st2)))
      else (Inr (Own (ClassInstance cls a)), closure, st0))

  | MethodBody body \<Rightarrow>
     (case exec body closure st of
        (Inl e, c1, st1) \<Rightarrow>
          (case e of ReturnException v \<Rightarrow> (Inr v, c1, st1) | _ \<Rightarrow> (Inl e, c1, st1))
      | (Inr _, c1, st1) \<Rightarrow> (Inr EmptyHolder, c1, st1)))"

text \<open>
  \<open>Execute\<close> itself. The first argument bounds the nesting of \<open>Execute\<close> calls: a
  program may recurse for ever, and an execution that would nest deeper than the bound
  ends with \<open>out_of_fuel\<close>.
\<close>

primrec Execute :: "nat \<Rightarrow> executor" where
  "Execute 0 = (\<lambda>stmt closure st. (Inl out_of_fuel, closure, st))"
| "Execute (Suc n) = Execute_step (Execute n) (Object_Print n (Execute n))"

declare Execute.simps [simp del]

section \<open>Notions the properties are stated with\<close>

text \<open>Whether a scan was stopped by a \<open>LexerError\<close> exception.\<close>

definition fails_with_LexerError :: "lexer_failure + 'a \<Rightarrow> bool" where
  "fails_with_LexerError r = (case r of Inl (LexerError _) \<Rightarrow> True | _ \<Rightarrow> False)"

text \<open>
  Indent and Dedent in a token sequence. \<open>depth\<close> is the number of \<open>Indent\<close> tokens
  less the number of \<open>Dedent\<close> tokens. \<open>well_nested d ts\<close>: read from level \<open>d\<close>, every
  \<open>Dedent\<close> of \<open>ts\<close> closes an \<open>Indent\<close> that is still open. \<open>no_double_Newline\<close>: no
  two \<open>Newline\<close> tokens are neighbours.
\<close>

definition depth :: "Token list \<Rightarrow> int" where
  "depth ts = int (count_list ts tt_Indent) - int (count_list ts tt_Dedent)"

fun well_nested :: "int \<Rightarrow> Token list \<Rightarrow> bool" where
  "well_nested d [] = True"
| "well_nested d (t # ts) =
     (if t = tt_Indent then well_nested (d + 1) ts
      else if t = tt_Dedent then 0 < d \<and> well_nested (d - 1) ts
      else well_nested d ts)"

fun no_double_Newline :: "Token list \<Rightarrow> bool" where
  "no_double_Newline [] = True"
| "no_double_Newline [t] = True"
| "no_double_Newline (a # b # ts) =
     (\<not> (a = tt_Newline \<and> b = tt_Newline) \<and> no_double_Newline (b # ts))"

text \<open>
  What holds of the lexer between two calls of \<open>LoadToken\<close>: the buffer is well nested,
  its depth is the indent level, it has no two neighbouring \<open>Newline\<close>s and no \<open>Eof\<close>.
\<close>

definition layout_ok :: "Lexer \<Rightarrow> bool" where
  "layout_ok L =
     (well_nested 0 (tokens L) \<and> depth (tokens L) = current_indent L
      \<and> no_double_Newline (tokens L) \<and> tt_Eof \<notin> set (tokens L))"

definition layout_token :: "Token \<Rightarrow> bool" where
  "layout_token t = (t = tt_Indent \<or> t = tt_Dedent \<or> t = tt_Newline \<or> t = tt_Eof)"

text \<open>
  The stream as the lexer keeps it: \<open>eofbit\<close> is set only at the end of the characters.
  \<open>advances inp inp'\<close>: \<open>inp'\<close> is \<open>inp\<close> after reading characters none of which is a
  newline.
\<close>

definition wf_stream :: "istream \<Rightarrow> bool" where
  "wf_stream inp = (eofbit inp \<longrightarrow> buf inp = [])"

definition advances :: "istream \<Rightarrow> istream \<Rightarrow> bool" where
  "advances inp inp' = (wf_stream inp' \<and> (\<exists>pre. buf inp = pre @ buf inp' \<and> NL \<notin> set pre))"

text \<open>
  \<open>ends_lines L\<close>: what is left of the input ends with a newline, or nothing is left and
  the lexer is at the start of a line or at indent level 0.
\<close>

definition ends_lines :: "Lexer \<Rightarrow> bool" where
  "ends_lines L =
     (if buf (input L) = [] then new_line L \<or> current_indent L = 0
      else last (buf (input L)) = NL)"

text \<open>
  The classes a lookup walks, in the specification's words: the class itself, then its
  parent chain.
\<close>

fun Class_chain :: "Class \<Rightarrow> Class list" where
  "Class_chain (Class nm ms p) =
     Class nm ms p # (case p of None \<Rightarrow> [] | Some pc \<Rightarrow> Class_chain pc)"

text \<open>Values for the examples: a state, a closure and two classes.\<close>

definition example_state :: State where
  "example_state = \<lparr>heap = [[]], output_stream = []\<rparr>"

definition example_closure :: Closure where
  "example_closure = [(''x'', Own (Bool True)), (''y'', Own (Bool False)), (''n'', Own (Number 5))]"

definition Bare_class :: Class where
  "Bare_class = Class ''Bare'' [] None"

definition Same_class :: Class where
  "Same_class =
     Class ''Same'' [Method ''__eq__'' [''other''] (MethodBody (Return (VariableValue [''other''])))] None"

section \<open>Properties of the lexer\<close>

subsection \<open>The indent of a line\<close>

lemma istream_same: "buf inp = b \<Longrightarrow> eofbit inp = e \<Longrightarrow> inp\<lparr>buf := b, eofbit := e\<rparr> = inp"
  by simp

lemma spaces_loop_run:
  "\<not> eofbit inp \<Longrightarrow>
   spaces_loop (to_char (fst (peek inp))) (snd (peek inp)) n =
     (case dropWhile (\<lambda>c. c = CHR '' '') (buf inp) of [] \<Rightarrow> CHR 0xFF | x # _ \<Rightarrow> x,
      inp\<lparr>buf := dropWhile (\<lambda>c. c = CHR '' '') (buf inp),
          eofbit := (dropWhile (\<lambda>c. c = CHR '' '') (buf inp) = [])\<rparr>,
      n + int (length (takeWhile (\<lambda>c. c = CHR '' '') (buf inp))))"
proof (induction "buf inp" arbitrary: inp n)
  case Nil
  then have [simp]: "buf inp = []" by simp
  from Nil show ?case
    by (simp add: peek_def to_char_def spaces_loop_other)
next
  case (Cons x xs)
  then have b [simp]: "buf inp = x # xs" by simp
  show ?case
  proof (cases "x = CHR '' ''")
    case True
    let ?i = "inp\<lparr>buf := xs\<rparr>"
    have "xs = buf ?i" "\<not> eofbit ?i" using Cons.prems by simp_all
    from Cons.hyps(1) [OF this, of "n + 1"] Cons.prems True show ?thesis
      by (simp add: peek_def [of inp] get_def [of inp] to_char_def [of "Some _"] spaces_loop_space
            case_prod_unfold add.assoc)
  next
    case False
    with Cons.prems show ?thesis
      by (simp add: peek_def to_char_def spaces_loop_other)
  qed
qed

lemma dropWhile_spaces:
  "rest = [] \<or> hd rest \<noteq> CHR '' '' \<Longrightarrow>
   dropWhile (\<lambda>c. c = CHR '' '') (replicate k CHR '' '' @ rest) = rest \<and>
   takeWhile (\<lambda>c. c = CHR '' '') (replicate k CHR '' '' @ rest) = replicate k CHR '' ''"
  by (induction k) (cases rest; auto)+

lemma CalculateIndent_run:
  assumes "\<not> eofbit (input L)" and "buf (input L) = replicate k CHR '' '' @ rest"
    and "rest = [] \<or> hd rest \<noteq> CHR '' ''"
  shows "CalculateIndent L =
     (if rest \<noteq> [] \<and> hd rest = NL then Inr (L\<lparr>input := \<lparr>buf = rest, eofbit = False\<rparr>\<rparr>)
      else if odd k then Inl lexer_assert_failed
      else Inr (L\<lparr>input := \<lparr>buf = rest, eofbit = (rest = [])\<rparr>,
                tokens := tokens L @ replicate (nat \<bar>int k div 2 - current_indent L\<bar>)
                   (if int k div 2 > current_indent L then tt_Indent else tt_Dedent),
                current_indent := int k div 2,
                new_line := False\<rparr>))"
proof -
  have d: "dropWhile (\<lambda>c. c = CHR '' '') (buf (input L)) = rest"
    and t: "takeWhile (\<lambda>c. c = CHR '' '') (buf (input L)) = replicate k CHR '' ''"
    using dropWhile_spaces [OF assms(3), of k] assms(2) by simp_all
  have e: "input L\<lparr>buf := rest, eofbit := (rest = [])\<rparr> = \<lparr>buf = rest, eofbit = (rest = [])\<rparr>"
    by (cases "input L") simp
  have s: "spaces_loop (to_char (fst (peek (input L)))) (snd (peek (input L))) 0 =
     (case rest of [] \<Rightarrow> CHR 0xFF | x # _ \<Rightarrow> x, \<lparr>buf = rest, eofbit = (rest = [])\<rparr>, int k)"
    using spaces_loop_run [OF assms(1), of 0] by (simp add: d t e)
  have m: "(int k mod 2 \<noteq> 0) = odd k"
    by presburger
  have c: "((case rest of [] \<Rightarrow> CHR 0xFF | x # _ \<Rightarrow> x) = NL) = (rest \<noteq> [] \<and> hd rest = NL)"
    by (cases rest) (simp_all add: NL_def)
  have f: "rest \<noteq> [] \<and> hd rest = NL \<Longrightarrow> (rest = []) = False"
    by simp
  show ?thesis
    unfolding CalculateIndent_def case_prod_unfold s fst_conv snd_conv Let_def m c
    by (simp add: f)
qed

text \<open>
  The indent of a line with an even number of leading spaces. At the start of a line that
  is not blank for layout (after its \<open>k\<close> leading spaces comes something other than a
  newline, or the end of the input) with \<open>k\<close> even, \<open>CalculateIndent\<close> sets the indent
  level to \<open>k / 2\<close> and pushes as many \<open>Indent\<close> or \<open>Dedent\<close> tokens as the level
  differs from the one before.
\<close>

theorem CalculateIndent_even_indent:
  assumes "\<not> eofbit (input L)"
    and "buf (input L) = replicate k CHR '' '' @ rest"
    and "rest = [] \<or> (hd rest \<noteq> CHR '' '' \<and> hd rest \<noteq> NL)"
    and "even k"
  shows "CalculateIndent L =
           Inr (L\<lparr>input := \<lparr>buf = rest, eofbit = (rest = [])\<rparr>,
                  tokens := tokens L @ replicate (nat \<bar>int k div 2 - current_indent L\<bar>)
                     (if int k div 2 > current_indent L then tt_Indent else tt_Dedent),
                  current_indent := int k div 2,
                  new_line := False\<rparr>)"
proof -
  from assms(3) have r: "rest = [] \<or> hd rest \<noteq> CHR '' ''" and n: "\<not> (rest \<noteq> [] \<and> hd rest = NL)"
    by auto
  show ?thesis
    using CalculateIndent_run [OF assms(1) assms(2) r] n assms(4) by simp
qed

theorem CalculateIndent_even_indent_witness:
  "\<not> eofbit (input \<lparr>input = \<lparr>buf = ''    x'', eofbit = False\<rparr>, tokens = [], current_indent = 0, new_line = True\<rparr>)
   \<and> buf (input \<lparr>input = \<lparr>buf = ''    x'', eofbit = False\<rparr>, tokens = [], current_indent = 0, new_line = True\<rparr>)
       = replicate 4 CHR '' '' @ ''x''
   \<and> even (4 :: nat)
   \<and> CalculateIndent \<lparr>input = \<lparr>buf = ''    x'', eofbit = False\<rparr>, tokens = [], current_indent = 0, new_line = True\<rparr>
       = Inr \<lparr>input = \<lparr>buf = ''x'', eofbit = False\<rparr>, tokens = [tt_Indent, tt_Indent], current_indent = 2, new_line = False\<rparr>"
proof -
  have r4: "replicate 4 CHR '' '' = ''    ''"
    and r2: "replicate 2 tt_Indent = [tt_Indent, tt_Indent]"
    by (simp_all add: numeral_eq_Suc)
  show ?thesis
    using
      CalculateIndent_even_indent [of "\<lparr>input = \<lparr>buf = ''    x'', eofbit = False\<rparr>, tokens = [], current_indent = 0, new_line = True\<rparr>" 4 "''x''"]
    by (simp add: r4 r2 NL_def)
qed

text \<open>
  With an odd number of leading spaces the line reaches \<open>assert(counter % 2 == 0)\<close>,
  which fails, for every such line: \<open>CalculateIndent\<close> has no branch that throws.
\<close>

lemma CalculateIndent_odd_indent:
  assumes "\<not> eofbit (input L)"
    and "buf (input L) = replicate k CHR '' '' @ rest"
    and "rest = [] \<or> (hd rest \<noteq> CHR '' '' \<and> hd rest \<noteq> NL)"
    and "odd k"
  shows "CalculateIndent L = Inl lexer_assert_failed"
    and "new_line L \<Longrightarrow> LoadToken L = Inl lexer_assert_failed"
proof -
  from assms(3) have r: "rest = [] \<or> hd rest \<noteq> CHR '' ''" and n: "\<not> (rest \<noteq> [] \<and> hd rest = NL)"
    by auto
  show ci: "CalculateIndent L = Inl lexer_assert_failed"
    using CalculateIndent_run [OF assms(1) assms(2) r] n assms(4) by simp
  show "LoadToken L = Inl lexer_assert_failed" if "new_line L"
    using that ci by (simp add: LoadToken.simps [of L] LoadToken_scan_def)
qed

text \<open>
  Claim C3. The half of the claim about an even count holds: the level is half the
  count. For an odd count the claim asks for a \<open>LexerError\<close>,
  and the code does not throw one: it states that the count is even as an assertion,
  \<open>assert(counter % 2 == 0)\<close>, which a source text can break. The source \<open>x\<close> after one
  leading space fails the assertion in \<open>CalculateIndent\<close>, so the construction of the
  lexer stops there and not with a \<open>LexerError\<close>; an unterminated string, another
  lexical error of the same lexer, does throw \<open>LexerError\<close>.
\<close>

theorem odd_indent_fails_assertion:
  "CalculateIndent \<lparr>input = \<lparr>buf = '' x'', eofbit = False\<rparr>, tokens = [], current_indent = 0,
       new_line = True\<rparr> = Inl lexer_assert_failed
   \<and> Lexer_tokens '' x'' = Inl lexer_assert_failed
   \<and> \<not> fails_with_LexerError (Lexer_tokens '' x'')
   \<and> Lexer_tokens [CHR 0x22, CHR ''x''] = Inl (LexerError ''String parsing error'')
   \<and> fails_with_LexerError (Lexer_tokens [CHR 0x22, CHR ''x''])"
  by code_simp

subsection \<open>The end of the input\<close>



subsection \<open>Indent and Dedent at the end of the input\<close>

text \<open>
  Claim C2 does not hold of the code. A source whose last line is indented and has no
  newline after it is scanned to a buffer with an \<open>Indent\<close> and no \<open>Dedent\<close>: at the end
  of the input \<open>LoadToken\<close> makes up the missing \<open>Newline\<close> and then returns \<open>Eof\<close>,
  and \<open>CalculateIndent\<close>, the only place that pushes \<open>Dedent\<close>, is not called again.
  The same source with the newline gets its \<open>Dedent\<close>.
\<close>

theorem Lexer_unmatched_Indent:
  "Lexer_tokens (''if x:'' @ [NL] @ ''  y'') =
     Inr [tt_If, tt_Id ''x'', tt_Char CHR '':'', tt_Newline, tt_Indent, tt_Id ''y'', tt_Newline, tt_Eof]
   \<and> Lexer_tokens (''if x:'' @ [NL] @ ''  y'' @ [NL]) =
     Inr [tt_If, tt_Id ''x'', tt_Char CHR '':'', tt_Newline, tt_Indent, tt_Id ''y'', tt_Newline, tt_Dedent, tt_Eof]"
  by code_simp

subsection \<open>Layout tokens\<close>

lemma depth_simps [simp]:
  "depth [] = 0"
  "depth (tt_Indent # ts) = depth ts + 1"
  "depth (tt_Dedent # ts) = depth ts - 1"
  "t \<noteq> tt_Indent \<Longrightarrow> t \<noteq> tt_Dedent \<Longrightarrow> depth (t # ts) = depth ts"
  by (simp_all add: depth_def)

lemma depth_append [simp]: "depth (xs @ ys) = depth xs + depth ys"
  by (induction xs) (simp_all add: depth_def)

lemma depth_replicate_Indent [simp]: "depth (replicate k tt_Indent) = int k"
  by (induction k) simp_all

lemma depth_replicate_Dedent [simp]: "depth (replicate k tt_Dedent) = - int k"
  by (induction k) simp_all

lemma well_nested_append:
  "well_nested d (xs @ ys) = (well_nested d xs \<and> well_nested (d + depth xs) ys)"
proof (induction xs arbitrary: d)
  case Nil
  show ?case by simp
next
  case (Cons x xs)
  show ?case
  proof (cases "x = tt_Indent")
    case True
    then show ?thesis by (simp add: Cons.IH add.commute add.left_commute)
  next
    case False
    show ?thesis
    proof (cases "x = tt_Dedent")
      case True
      have "d - 1 + depth xs = d + (depth xs - 1)" by simp
      then have "well_nested (d - 1 + depth xs) ys = well_nested (d + (depth xs - 1)) ys"
        by (rule arg_cong)
      with True show ?thesis by (simp add: Cons.IH)
    next
      case False
      with \<open>x \<noteq> tt_Indent\<close> show ?thesis by (simp add: Cons.IH)
    qed
  qed
qed

lemma well_nested_replicate_Indent [simp]: "well_nested d (replicate k tt_Indent)"
  by (induction k arbitrary: d) simp_all

lemma well_nested_replicate_Dedent: "int k \<le> d \<Longrightarrow> well_nested d (replicate k tt_Dedent)"
  by (induction k arbitrary: d) simp_all

lemma no_double_Newline_snoc:
  "no_double_Newline (xs @ [t]) =
     (no_double_Newline xs \<and> \<not> (xs \<noteq> [] \<and> last xs = tt_Newline \<and> t = tt_Newline))"
  by (induction xs rule: no_double_Newline.induct) auto

lemma no_double_Newline_layout:
  "no_double_Newline xs \<Longrightarrow> set ds \<subseteq> {tt_Indent, tt_Dedent} \<Longrightarrow> no_double_Newline (xs @ ds)"
proof (induction ds rule: rev_induct)
  case Nil
  then show ?case by simp
next
  case (snoc d ds)
  then have "d \<noteq> tt_Newline" by auto
  with snoc show ?case
    by (simp add: no_double_Newline_snoc [of "xs @ ds" d, simplified])
qed

lemma last_layout:
  "set ds \<subseteq> {tt_Indent, tt_Dedent} \<Longrightarrow> ds \<noteq> [] \<Longrightarrow> last (xs @ ds) \<noteq> tt_Newline \<and> last (xs @ ds) \<noteq> tt_Eof"
  by (induction ds rule: rev_induct) auto

lemma spaces_loop_counter:
  "spaces_loop c inp n = (c', inp', n') \<Longrightarrow> n \<le> n'"
proof (induction c inp n rule: spaces_loop.induct)
  case (1 c inp counter)
  show ?case
  proof (cases "c = CHR '' ''")
    case True
    obtain r inp1 where p: "peek (snd (get inp)) = (r, inp1)"
      by (cases "peek (snd (get inp))")
    from "1.prems" True p have "spaces_loop (to_char r) inp1 (counter + 1) = (c', inp', n')"
      by (simp add: spaces_loop_space)
    with "1.IH" True p have "counter + 1 \<le> n'"
      by simp
    then show ?thesis by simp
  next
    case False
    with "1.prems" show ?thesis by (simp add: spaces_loop_other)
  qed
qed

lemma CalculateIndent_layout:
  assumes "CalculateIndent L = Inr L'" and "layout_ok L"
  shows "layout_ok L' \<and> (\<exists>ds. tokens L' = tokens L @ ds \<and> set ds \<subseteq> {tt_Indent, tt_Dedent})"
proof -
  obtain r inp0 where p: "peek (input L) = (r, inp0)"
    by (cases "peek (input L)")
  obtain c inp1 n where s: "spaces_loop (to_char r) inp0 0 = (c, inp1, n)"
    by (cases "spaces_loop (to_char r) inp0 0")
  have n0: "0 \<le> n" using spaces_loop_counter [OF s] .
  show ?thesis
  proof (cases "c = NL")
    case True
    with assms p s have "L' = L\<lparr>input := inp1\<rparr>"
      by (simp add: CalculateIndent_def)
    with assms(2) show ?thesis by (simp add: layout_ok_def)
  next
    case False
    let ?new = "n div 2"
    let ?cur = "current_indent L"
    let ?ds = "replicate (nat \<bar>?new - ?cur\<bar>) (if ?new > ?cur then tt_Indent else tt_Dedent)"
    from assms p s False have L': "L' = L\<lparr>input := inp1, tokens := tokens L @ ?ds,
        current_indent := ?cur + (?new - ?cur), new_line := False\<rparr>"
      by (auto simp: CalculateIndent_def Let_def split: if_splits)
    have new0: "0 \<le> ?new" using n0 by simp
    have sub: "set ?ds \<subseteq> {tt_Indent, tt_Dedent}" by auto
    have d: "depth ?ds = ?new - ?cur" by simp
    have w: "well_nested ?cur ?ds"
    proof (cases "?new > ?cur")
      case True
      then show ?thesis by simp
    next
      case False
      with new0 have "int (nat \<bar>?new - ?cur\<bar>) \<le> ?cur" by simp
      from well_nested_replicate_Dedent [OF this] False show ?thesis by simp
    qed
    from assms(2) have "tt_Eof \<notin> set (tokens L @ ?ds)"
      by (auto simp: layout_ok_def)
    with assms(2) sub d w no_double_Newline_layout [OF _ sub, of "tokens L"]
    have "layout_ok L'"
      unfolding L' layout_ok_def by (simp add: well_nested_append)
    moreover have "tokens L' = tokens L @ ?ds" by (simp add: L')
    ultimately show ?thesis using sub by blast
  qed
qed

lemma LoadToken_scan_layout:
  assumes "LoadToken_scan L = Inr (c, L1)" and "layout_ok L"
  shows "layout_ok L1 \<and> (\<exists>ds. tokens L1 = tokens L @ ds \<and> set ds \<subseteq> {tt_Indent, tt_Dedent})"
proof (cases "new_line L")
  case True
  with assms(1) obtain L0 where ci: "CalculateIndent L = Inr L0"
    and t: "tokens L1 = tokens L0" "current_indent L1 = current_indent L0"
    by (cases "CalculateIndent L") (auto simp: LoadToken_scan_def split: prod.splits)
  from CalculateIndent_layout [OF ci assms(2)] t show ?thesis
    by (simp add: layout_ok_def)
next
  case False
  with assms(1) have "tokens L1 = tokens L" "current_indent L1 = current_indent L"
    by (auto simp: LoadToken_scan_def split: prod.splits)
  with assms(2) show ?thesis by (simp add: layout_ok_def)
qed

lemma KEY_WORDS_TOKENS_not_layout:
  "map_of KEY_WORDS_TOKENS s = Some t \<Longrightarrow> \<not> layout_token t"
  by (auto simp: KEY_WORDS_TOKENS_def layout_token_def split: if_splits)

lemma LoadStringToken_token: "LoadStringToken inp = Inr (t, inp') \<Longrightarrow> \<not> layout_token t"
  by (auto simp: LoadStringToken_def layout_token_def split: if_splits list.splits sum.splits)

lemma LoadNumberToken_token: "LoadNumberToken inp = Inr (t, inp') \<Longrightarrow> \<not> layout_token t"
  by (auto simp: LoadNumberToken_def layout_token_def split: prod.splits sum.splits)

lemma LoadIdToken_token: "LoadIdToken inp = Inr (t, inp') \<Longrightarrow> \<not> layout_token t"
  by (auto simp: LoadIdToken_def layout_token_def dest: KEY_WORDS_TOKENS_not_layout
           split: prod.splits option.splits)

lemma LoadOperatorsToken_token: "LoadOperatorsToken inp = Inr (t, inp') \<Longrightarrow> \<not> layout_token t"
  by (auto simp: LoadOperatorsToken_def layout_token_def Let_def split: prod.splits if_splits)

lemma LoadToken_dispatch_token:
  assumes "LoadToken_dispatch c L = Inr (t, L')"
  shows "tokens L' = tokens L \<and> current_indent L' = current_indent L \<and> new_line L' = new_line L
       \<and> t \<noteq> tt_Indent \<and> t \<noteq> tt_Dedent
       \<and> (t = tt_Newline \<longrightarrow> tokens L \<noteq> [] \<and> last (tokens L) \<noteq> tt_Newline)
       \<and> (t = tt_Eof \<longrightarrow> eofbit (input L') \<and>
            (tokens L = [] \<or> last (tokens L) = tt_Newline \<or> last (tokens L) = tt_Dedent))"
proof (cases "eofbit (input L)")
  case True
  with assms show ?thesis
    by (auto simp: LoadToken_dispatch_def split: if_splits)
next
  case False
  with assms obtain inp' where
    "LoadStringToken (input L) = Inr (t, inp') \<or> LoadNumberToken (input L) = Inr (t, inp')
     \<or> LoadIdToken (input L) = Inr (t, inp') \<or> LoadOperatorsToken (input L) = Inr (t, inp')"
    and L': "L' = L\<lparr>input := inp'\<rparr>"
    by (auto simp: LoadToken_dispatch_def lift_token_def split: if_splits sum.splits)
  then have "\<not> layout_token t"
    by (auto dest: LoadStringToken_token LoadNumberToken_token LoadIdToken_token
        LoadOperatorsToken_token)
  with L' show ?thesis by (simp add: layout_token_def)
qed

lemma LoadToken_layout:
  "LoadToken L = Inr (t, L') \<Longrightarrow> layout_ok L \<Longrightarrow>
     layout_ok L' \<and> t \<noteq> tt_Indent \<and> t \<noteq> tt_Dedent
     \<and> (t = tt_Newline \<longrightarrow> tokens L' \<noteq> [] \<and> last (tokens L') \<noteq> tt_Newline)
     \<and> (t = tt_Eof \<longrightarrow> eofbit (input L') \<and> \<not> new_line L' \<and>
          (tokens L' = [] \<or> last (tokens L') = tt_Newline \<or> last (tokens L') = tt_Dedent))"
proof (induction L rule: LoadToken.induct)
  case (1 L)
  from "1.prems" obtain c L1 where sc: "LoadToken_scan L = Inr (c, L1)"
    by (cases "LoadToken_scan L") (auto simp: LoadToken.simps [of L])
  have ok1: "layout_ok L1"
    using LoadToken_scan_layout [OF sc "1.prems"(2)] by simp
  show ?case
  proof (cases "c = NL")
    case True
    define L2 where "L2 = L1\<lparr>input := snd (get (input L1)), new_line := True\<rparr>"
    have ok2: "layout_ok L2"
      using ok1 by (simp add: L2_def layout_ok_def)
    show ?thesis
    proof (cases "tokens L2 = [] \<or> last (tokens L2) = tt_Newline")
      case rec: True
      with "1.prems" sc True have "LoadToken L2 = Inr (t, L')"
        by (simp add: LoadToken.simps [of L] L2_def Let_def)
      from "1.IH" [OF sc refl True L2_def rec this ok2] show ?thesis .
    next
      case False
      with "1.prems" sc True have "L' = L2" "t = tt_Newline"
        by (auto simp: LoadToken.simps [of L] L2_def Let_def)
      with False ok2 show ?thesis by simp
    qed
  next
    case False
    with "1.prems" sc have d: "LoadToken_dispatch c L1 = Inr (t, L')"
      by (simp add: LoadToken.simps [of L])
    from LoadToken_dispatch_token [OF d] ok1 LoadToken_scan_new_line [OF sc False]
    show ?thesis by (simp add: layout_ok_def)
  qed
qed

lemma Lexer_loop_unfold_Eof:
  "tokens L \<noteq> [] \<Longrightarrow> last (tokens L) = tt_Eof \<Longrightarrow> Lexer_loop L = Inr L"
  by (subst Lexer_loop.simps) simp

lemma Lexer_loop_unfold_step:
  "tokens L = [] \<or> last (tokens L) \<noteq> tt_Eof \<Longrightarrow>
   Lexer_loop L =
     (case LoadToken L of
        Inl e \<Rightarrow> Inl e
      | Inr (t, L') \<Rightarrow> Lexer_loop (L'\<lparr>tokens := tokens L' @ [t]\<rparr>))"
  by (subst Lexer_loop.simps) simp

lemma layout_ok_not_Eof: "layout_ok L \<Longrightarrow> tokens L = [] \<or> last (tokens L) \<noteq> tt_Eof"
  by (cases "tokens L = []") (auto simp: layout_ok_def dest: last_in_set)

lemma Lexer_loop_layout:
  "Lexer_loop L = Inr Lf \<Longrightarrow> layout_ok L \<Longrightarrow>
     (\<exists>ts. tokens Lf = ts @ [tt_Eof] \<and> tt_Eof \<notin> set ts \<and> well_nested 0 ts
        \<and> no_double_Newline ts \<and> depth ts = current_indent Lf
        \<and> (ts = [] \<or> last ts = tt_Newline \<or> last ts = tt_Dedent))
     \<and> eofbit (input Lf) \<and> \<not> new_line Lf"
proof (induction L rule: Lexer_loop.induct)
  case (1 L)
  have c: "tokens L = [] \<or> last (tokens L) \<noteq> tt_Eof"
    using layout_ok_not_Eof [OF "1.prems"(2)] .
  with "1.prems"(1) obtain t L' where lt: "LoadToken L = Inr (t, L')"
    and loop: "Lexer_loop (L'\<lparr>tokens := tokens L' @ [t]\<rparr>) = Inr Lf"
    by (cases "LoadToken L") (auto simp: Lexer_loop_unfold_step)
  note lay = LoadToken_layout [OF lt "1.prems"(2)]
  show ?case
  proof (cases "t = tt_Eof")
    case True
    from loop True have "Lf = L'\<lparr>tokens := tokens L' @ [tt_Eof]\<rparr>"
      by (simp add: Lexer_loop_unfold_Eof)
    with lay True show ?thesis
      by (auto simp: layout_ok_def)
  next
    case False
    with lay have "layout_ok (L'\<lparr>tokens := tokens L' @ [t]\<rparr>)"
      by (auto simp: layout_ok_def well_nested_append no_double_Newline_snoc)
    from "1.IH" [OF c lt refl loop this] show ?thesis .
  qed
qed

lemma Lexer_new_layout:
  assumes "Lexer_new src = Inr Lf"
  shows "(\<exists>ts. tokens Lf = ts @ [tt_Eof] \<and> tt_Eof \<notin> set ts \<and> well_nested 0 ts
        \<and> no_double_Newline ts \<and> depth ts = current_indent Lf
        \<and> (ts = [] \<or> last ts = tt_Newline \<or> last ts = tt_Dedent))
     \<and> eofbit (input Lf) \<and> \<not> new_line Lf"
  using assms unfolding Lexer_new_def
  by (rule Lexer_loop_layout) (simp add: layout_ok_def)

lemma advances_refl: "wf_stream inp \<Longrightarrow> advances inp inp"
  by (simp add: advances_def)

lemma advances_trans: "advances a b \<Longrightarrow> advances b c \<Longrightarrow> advances a c"
  by (fastforce simp: advances_def)

lemma advances_wf: "advances a b \<Longrightarrow> wf_stream b"
  by (simp add: advances_def)

lemma peek_advances: "wf_stream inp \<Longrightarrow> advances inp (snd (peek inp))"
  by (auto simp: advances_def wf_stream_def peek_def split: list.splits)

lemma eofbit_update_same: "inp\<lparr>eofbit := True\<rparr> = inp \<Longrightarrow> eofbit inp"
  by (drule arg_cong [where f = eofbit]) simp

lemma get_advances:
  assumes "synced c inp" and "wf_stream inp" and "c \<noteq> NL"
  shows "advances inp (snd (get inp))"
proof (cases "fst (peek inp)")
  case None
  with assms(1) have "eofbit inp"
    by (auto simp: synced_def peek_def dest: eofbit_update_same split: if_splits list.splits)
  with assms(2) show ?thesis
    by (simp add: get_def advances_refl)
next
  case (Some ch)
  with assms(1) have "peek inp = (Some ch, inp)" and c: "c = ch"
    by (auto simp: synced_def to_char_def)
  from peek_Some [OF this(1)] obtain rest where "\<not> eofbit inp" "buf inp = ch # rest"
    by (cases "buf inp") auto
  with c assms(3) show ?thesis
    by (auto simp: get_def advances_def wf_stream_def intro: exI [of _ "[ch]"])
qed

lemma spaces_loop_advances:
  "spaces_loop c inp n = (c', inp', n') \<Longrightarrow> synced c inp \<Longrightarrow> wf_stream inp \<Longrightarrow>
     advances inp inp'"
proof (induction c inp n rule: spaces_loop.induct)
  case (1 c inp counter)
  show ?case
  proof (cases "c = CHR '' ''")
    case True
    obtain r inp1 where p: "peek (snd (get inp)) = (r, inp1)"
      by (cases "peek (snd (get inp))")
    from "1.prems" True p have l: "spaces_loop (to_char r) inp1 (counter + 1) = (c', inp', n')"
      by (simp add: spaces_loop_space)
    have g: "advances inp (snd (get inp))"
      using get_advances [OF "1.prems"(2,3)] True by (simp add: NL_def)
    have "advances (snd (get inp)) inp1"
      using peek_advances [OF advances_wf [OF g]] p by simp
    with g have a: "advances inp inp1" by (rule advances_trans)
    from "1.IH" [OF True p [symmetric] l synced_peek [OF p] advances_wf [OF a]]
    have "advances inp1 inp'" .
    with a show ?thesis by (rule advances_trans)
  next
    case False
    with "1.prems" show ?thesis by (simp add: spaces_loop_other advances_refl)
  qed
qed

lemma comment_loop_advances:
  "comment_loop c inp = (c', inp') \<Longrightarrow> synced c inp \<Longrightarrow> wf_stream inp \<Longrightarrow>
     advances inp inp'"
proof (induction c inp rule: comment_loop.induct)
  case (1 c inp)
  show ?case
  proof (cases "c \<noteq> NL \<and> \<not> eofbit inp")
    case True
    obtain r inp1 where p: "peek (snd (get inp)) = (r, inp1)"
      by (cases "peek (snd (get inp))")
    from "1.prems" True p have l: "comment_loop (to_char r) inp1 = (c', inp')"
      by (simp add: comment_loop_step)
    have g: "advances inp (snd (get inp))"
      using get_advances [OF "1.prems"(2,3)] True by simp
    have "advances (snd (get inp)) inp1"
      using peek_advances [OF advances_wf [OF g]] p by simp
    with g have a: "advances inp inp1" by (rule advances_trans)
    from "1.IH" [OF True p [symmetric] l synced_peek [OF p] advances_wf [OF a]]
    have "advances inp1 inp'" .
    with a show ?thesis by (rule advances_trans)
  next
    case False
    with "1.prems" show ?thesis by (auto simp: comment_loop_stop advances_refl)
  qed
qed

lemma IsDigit_not_NL: "IsDigit c \<Longrightarrow> c \<noteq> NL"
  by (auto simp: IsDigit_def NL_def less_eq_char_def)

lemma IsIdCharacter_not_NL: "IsIdCharacter c \<Longrightarrow> c \<noteq> NL"
  by (auto simp: IsIdCharacter_def IsIdOpening_def IsDigit_def NL_def less_eq_char_def)

lemma digits_loop_advances:
  "digits_loop c inp s = (inp', s') \<Longrightarrow> synced c inp \<Longrightarrow> wf_stream inp \<Longrightarrow>
     advances inp inp'"
proof (induction c inp s rule: digits_loop.induct)
  case (1 c inp s)
  show ?case
  proof (cases "IsDigit c")
    case True
    obtain g inp0 where g: "get inp = (g, inp0)" by (cases "get inp")
    obtain r inp1 where p: "peek inp0 = (r, inp1)" by (cases "peek inp0")
    from "1.prems" True g p have l: "digits_loop (to_char r) inp1 (s @ [to_char g]) = (inp', s')"
      by (simp add: digits_loop_step)
    have ga: "advances inp inp0"
      using get_advances [OF "1.prems"(2,3) IsDigit_not_NL [OF True]] g by simp
    have "advances inp0 inp1"
      using peek_advances [OF advances_wf [OF ga]] p by simp
    with ga have a: "advances inp inp1" by (rule advances_trans)
    from "1.IH" [OF True g [symmetric] p [symmetric] l synced_peek [OF p] advances_wf [OF a]]
    have "advances inp1 inp'" .
    with a show ?thesis by (rule advances_trans)
  next
    case False
    with "1.prems" show ?thesis by (simp add: digits_loop_stop advances_refl)
  qed
qed

lemma id_loop_advances:
  "id_loop c inp s = (inp', s') \<Longrightarrow> synced c inp \<Longrightarrow> wf_stream inp \<Longrightarrow>
     advances inp inp'"
proof (induction c inp s rule: id_loop.induct)
  case (1 c inp s)
  show ?case
  proof (cases "IsIdCharacter c")
    case True
    obtain g inp0 where g: "get inp = (g, inp0)" by (cases "get inp")
    obtain r inp1 where p: "peek inp0 = (r, inp1)" by (cases "peek inp0")
    from "1.prems" True g p have l: "id_loop (to_char r) inp1 (s @ [to_char g]) = (inp', s')"
      by (simp add: id_loop_step)
    have ga: "advances inp inp0"
      using get_advances [OF "1.prems"(2,3) IsIdCharacter_not_NL [OF True]] g by simp
    have "advances inp0 inp1"
      using peek_advances [OF advances_wf [OF ga]] p by simp
    with ga have a: "advances inp inp1" by (rule advances_trans)
    from "1.IH" [OF True g [symmetric] p [symmetric] l synced_peek [OF p] advances_wf [OF a]]
    have "advances inp1 inp'" .
    with a show ?thesis by (rule advances_trans)
  next
    case False
    with "1.prems" show ?thesis by (simp add: id_loop_stop advances_refl)
  qed
qed

lemma string_loop_no_NL:
  "string_loop q xs s = Inr (s', rest) \<Longrightarrow> q \<noteq> NL \<Longrightarrow> \<exists>pre. xs = pre @ rest \<and> NL \<notin> set pre"
proof (induction q xs s rule: string_loop.induct)
  case (1 q s)
  then show ?case by simp
next
  case (2 q ch xs s)
  show ?case
  proof (cases "ch = q")
    case True
    with "2.prems" have "rest = xs" by simp
    with True "2.prems"(2) show ?thesis by (intro exI [of _ "[ch]"]) simp
  next
    case nq: False
    show ?thesis
    proof (cases "ch = CHR 0x5C")
      case True
      with nq "2.prems" obtain e xs' where xs: "xs = e # xs'"
        by (cases xs) auto
      from "2.prems"(1) nq True xs have e: "e = CHR ''n'' \<or> e = CHR ''t'' \<or> e = CHR 0x27 \<or> e = CHR 0x22"
        by (auto split: if_splits)
      from "2.prems"(1) nq True xs e obtain s1 where "string_loop q xs' s1 = Inr (s', rest)"
        by (auto split: if_splits)
      moreover from "2.IH"(1-4) [OF nq True xs] e this "2.prems"(2)
      have "\<exists>pre. xs' = pre @ rest \<and> NL \<notin> set pre"
        using \<open>string_loop q xs' s1 = Inr (s', rest)\<close> "2.prems"(1) nq True xs
        by (auto split: if_splits)
      then obtain pre where "xs' = pre @ rest" "NL \<notin> set pre" by blast
      with xs True e show ?thesis
        by (intro exI [of _ "ch # e # pre"]) (auto simp: NL_def)
    next
      case False
      with nq "2.prems" have nn: "ch \<noteq> NL" and l: "string_loop q xs (s @ [ch]) = Inr (s', rest)"
        by (auto split: if_splits)
      from "2.IH"(5) [OF nq False _ l "2.prems"(2)] "2.prems"(1) nq False
      obtain pre where "xs = pre @ rest" "NL \<notin> set pre"
        by (auto split: if_splits)
      with nn show ?thesis
        by (intro exI [of _ "ch # pre"]) auto
    qed
  qed
qed

lemma synced_good:
  "\<not> eofbit inp \<Longrightarrow> buf inp \<noteq> [] \<Longrightarrow> synced (hd (buf inp)) inp"
  by (simp add: synced_def peek_good to_char_def)

lemma IsStringOpening_not_space: "IsStringOpening c \<Longrightarrow> \<not> isspace c \<and> c \<noteq> NL"
  by (auto simp: IsStringOpening_def isspace_def NL_def)

lemma LoadStringToken_advances:
  assumes "LoadStringToken inp = Inr (t, inp')" and "buf inp \<noteq> []"
    and "IsStringOpening (hd (buf inp))"
  shows "advances inp inp'"
proof -
  from assms(2) obtain q rest where b: "buf inp = q # rest" by (cases "buf inp") auto
  with assms(3) have q: "\<not> isspace q" "q \<noteq> NL"
    using IsStringOpening_not_space [of q] by simp_all
  with assms(1) b obtain s rest' where ne: "\<not> eofbit inp"
    and l: "string_loop q rest [] = Inr (s, rest')" and i: "inp' = inp\<lparr>buf := rest'\<rparr>"
    by (auto simp: LoadStringToken_def split: if_splits sum.splits)
  from string_loop_no_NL [OF l q(2)] obtain pre where "rest = pre @ rest'" "NL \<notin> set pre"
    by blast
  with b q(2) ne i show ?thesis
    by (auto simp: advances_def wf_stream_def intro: exI [of _ "q # pre"])
qed

lemma LoadNumberToken_advances:
  assumes "LoadNumberToken inp = Inr (t, inp')" and "\<not> eofbit inp" and "buf inp \<noteq> []"
  shows "advances inp inp'"
proof -
  from assms obtain s where "digits_loop (hd (buf inp)) inp [] = (inp', s)"
    by (auto simp: LoadNumberToken_def peek_good to_char_def split: prod.splits sum.splits)
  from digits_loop_advances [OF this synced_good [OF assms(2,3)]] assms(2)
  show ?thesis by (simp add: wf_stream_def)
qed

lemma LoadIdToken_advances:
  assumes "LoadIdToken inp = Inr (t, inp')" and "\<not> eofbit inp" and "buf inp \<noteq> []"
  shows "advances inp inp'"
proof -
  from assms obtain s where "id_loop (hd (buf inp)) inp [] = (inp', s)"
    by (auto simp: LoadIdToken_def peek_good to_char_def split: prod.splits option.splits)
  from id_loop_advances [OF this synced_good [OF assms(2,3)]] assms(2)
  show ?thesis by (simp add: wf_stream_def)
qed

lemma LoadOperatorsToken_advances:
  assumes "LoadOperatorsToken inp = Inr (t, inp')" and "\<not> eofbit inp" and "buf inp \<noteq> []"
    and "hd (buf inp) \<noteq> NL"
  shows "advances inp inp'"
proof -
  have w: "wf_stream inp" using assms(2) by (simp add: wf_stream_def)
  let ?i1 = "snd (get inp)"
  have a1: "advances inp ?i1"
    using get_advances [OF synced_good [OF assms(2,3)] w assms(4)] .
  obtain r i2 where p: "peek ?i1 = (r, i2)" by (cases "peek ?i1")
  have a2: "advances ?i1 i2"
    using peek_advances [OF advances_wf [OF a1]] p by simp
  have a3: "to_char r = CHR ''='' \<Longrightarrow> advances i2 (snd (get i2))"
    using get_advances [OF synced_peek [OF p] advances_wf [OF a2]] by (simp add: NL_def)
  from assms(1) p have "inp' = ?i1 \<or> inp' = i2 \<or> (to_char r = CHR ''='' \<and> inp' = snd (get i2))"
    by (auto simp: LoadOperatorsToken_def Let_def split: prod.splits if_splits)
  with a1 a2 a3 show ?thesis
    by (auto intro: advances_trans)
qed

lemma CalculateIndent_advances:
  assumes "CalculateIndent L = Inr L'" and "wf_stream (input L)"
  shows "advances (input L) (input L')"
proof -
  obtain r inp0 where p: "peek (input L) = (r, inp0)"
    by (cases "peek (input L)")
  obtain c inp1 n where s: "spaces_loop (to_char r) inp0 0 = (c, inp1, n)"
    by (cases "spaces_loop (to_char r) inp0 0")
  from assms(1) p s have i: "input L' = inp1"
    by (auto simp: CalculateIndent_def Let_def split: if_splits)
  have a: "advances (input L) inp0"
    using peek_advances [OF assms(2)] p by simp
  from spaces_loop_advances [OF s synced_peek [OF p] advances_wf [OF a]] a i
  show ?thesis by (auto intro: advances_trans)
qed

lemma LoadToken_scan_advances:
  assumes "LoadToken_scan L = Inr (c, L1)" and "wf_stream (input L)"
  shows "advances (input L) (input L1) \<and> synced c (input L1)"
proof -
  obtain L0 where L0: "(if new_line L then CalculateIndent L else Inr L) = Inr L0"
    using assms(1) by (cases "if new_line L then CalculateIndent L else Inr L")
      (auto simp: LoadToken_scan_def)
  then have a0: "advances (input L) (input L0)"
    using assms(2) by (auto dest: CalculateIndent_advances simp: advances_refl split: if_splits)
  obtain r inp0 where p: "peek (input L0) = (r, inp0)"
    by (cases "peek (input L0)")
  obtain c1 inp1 n where s: "spaces_loop (to_char r) inp0 0 = (c1, inp1, n)"
    by (cases "spaces_loop (to_char r) inp0 0")
  obtain c2 inp2 where k: "(if c1 = CHR ''#'' then comment_loop c1 inp1 else (c1, inp1)) = (c2, inp2)"
    by (cases "if c1 = CHR ''#'' then comment_loop c1 inp1 else (c1, inp1)")
  obtain r3 inp3 where q: "peek inp2 = (r3, inp3)"
    by (cases "peek inp2")
  from assms(1) L0 p s k q have i: "input L1 = inp3" and c: "c = to_char r3"
    by (auto simp: LoadToken_scan_def)
  have a1: "advances (input L0) inp0"
    using peek_advances [OF advances_wf [OF a0]] p by simp
  have sy1: "synced c1 inp1"
    using spaces_loop_synced [OF s synced_peek [OF p]] .
  have a2: "advances inp0 inp1"
    using spaces_loop_advances [OF s synced_peek [OF p] advances_wf [OF a1]] .
  have a3: "advances inp1 inp2"
    using k sy1 advances_wf [OF a2]
    by (auto dest: comment_loop_advances simp: advances_refl split: if_splits)
  have a4: "advances inp2 inp3"
    using peek_advances [OF advances_wf [OF a3]] q by simp
  from a0 a1 a2 a3 a4 have "advances (input L) inp3"
    by (blast intro: advances_trans)
  with i c synced_peek [OF q] show ?thesis by simp
qed

lemma synced_not_eof:
  "synced c inp \<Longrightarrow> \<not> eofbit inp \<Longrightarrow> buf inp \<noteq> [] \<and> hd (buf inp) = c"
  by (cases "buf inp") (auto simp: synced_def peek_def to_char_def dest: eofbit_update_same)

lemma LoadToken_dispatch_advances:
  assumes "LoadToken_dispatch c L = Inr (t, L')" and "wf_stream (input L)"
    and "synced c (input L)" and "c \<noteq> NL"
  shows "advances (input L) (input L')"
proof (cases "eofbit (input L)")
  case True
  with assms(1,2) show ?thesis
    by (auto simp: LoadToken_dispatch_def advances_refl split: if_splits)
next
  case False
  note g = synced_not_eof [OF assms(3) False]
  from assms(1) False obtain inp' where L': "input L' = inp'" and
    "(IsStringOpening c \<and> LoadStringToken (input L) = Inr (t, inp'))
     \<or> LoadNumberToken (input L) = Inr (t, inp')
     \<or> LoadIdToken (input L) = Inr (t, inp') \<or> LoadOperatorsToken (input L) = Inr (t, inp')"
    by (auto simp: LoadToken_dispatch_def lift_token_def split: if_splits sum.splits)
  with g False assms(4) have "advances (input L) inp'"
    by (auto dest: LoadStringToken_advances LoadNumberToken_advances LoadIdToken_advances
        LoadOperatorsToken_advances)
  with L' show ?thesis by simp
qed

lemma advances_last_NL:
  assumes "advances inp inp'" and "buf inp \<noteq> []" and "last (buf inp) = NL"
  shows "buf inp' \<noteq> [] \<and> last (buf inp') = NL"
proof -
  from assms(1) obtain pre where p: "buf inp = pre @ buf inp'" "NL \<notin> set pre"
    by (auto simp: advances_def)
  show ?thesis
  proof (cases "buf inp' = []")
    case True
    with p assms(2,3) have "NL \<in> set pre"
      by (metis append_Nil2 last_in_set)
    with p(2) show ?thesis by simp
  next
    case False
    with p assms(3) show ?thesis by simp
  qed
qed

lemma advances_empty: "advances inp inp' \<Longrightarrow> buf inp = [] \<Longrightarrow> buf inp' = []"
  by (auto simp: advances_def)

lemma CalculateIndent_empty:
  assumes "CalculateIndent L = Inr L'" and "buf (input L) = []"
  shows "current_indent L' = 0"
proof -
  have "fst (peek (input L)) = None"
    using assms(2) by (simp add: peek_def)
  then have "spaces_loop (to_char (fst (peek (input L)))) (snd (peek (input L))) 0 =
      (CHR 0xFF, snd (peek (input L)), 0)"
    by (simp add: to_char_def spaces_loop_other)
  with assms(1) show ?thesis
    by (auto simp: CalculateIndent_def case_prod_unfold NL_def)
qed

lemma LoadToken_scan_ends_lines:
  assumes "LoadToken_scan L = Inr (c, L1)" and "wf_stream (input L)" and "ends_lines L"
  shows "ends_lines L1"
proof -
  note a = LoadToken_scan_advances [OF assms(1,2), THEN conjunct1]
  show ?thesis
  proof (cases "buf (input L) = []")
    case True
    have b1: "buf (input L1) = []" using advances_empty [OF a True] .
    have "current_indent L1 = 0"
    proof (cases "new_line L")
      case nl: True
      with assms(1) obtain L0 where ci: "CalculateIndent L = Inr L0"
        and "current_indent L1 = current_indent L0"
        by (cases "CalculateIndent L") (auto simp: LoadToken_scan_def split: prod.splits)
      with CalculateIndent_empty [OF ci True] show ?thesis by simp
    next
      case False
      with assms(1) have "current_indent L1 = current_indent L"
        by (auto simp: LoadToken_scan_def split: prod.splits)
      with False assms(3) True show ?thesis by (simp add: ends_lines_def)
    qed
    with b1 show ?thesis by (simp add: ends_lines_def)
  next
    case False
    with assms(3) have "last (buf (input L)) = NL" by (simp add: ends_lines_def)
    from advances_last_NL [OF a False this] show ?thesis by (simp add: ends_lines_def)
  qed
qed

lemma LoadToken_ends_lines:
  "LoadToken L = Inr (t, L') \<Longrightarrow> wf_stream (input L) \<Longrightarrow> ends_lines L \<Longrightarrow>
     wf_stream (input L') \<and> ends_lines L'"
proof (induction L rule: LoadToken.induct)
  case (1 L)
  from "1.prems" obtain c L1 where sc: "LoadToken_scan L = Inr (c, L1)"
    by (cases "LoadToken_scan L") (auto simp: LoadToken.simps [of L])
  note a = LoadToken_scan_advances [OF sc "1.prems"(2)]
  have w1: "wf_stream (input L1)" using a [THEN conjunct1] by (rule advances_wf)
  have e1: "ends_lines L1" using LoadToken_scan_ends_lines [OF sc "1.prems"(2,3)] .
  show ?case
  proof (cases "c = NL")
    case True
    define L2 where "L2 = L1\<lparr>input := snd (get (input L1)), new_line := True\<rparr>"
    from a True have pk: "peek (input L1) = (Some NL, input L1)"
      by (simp add: synced_NL)
    from peek_Some [OF pk] obtain rest where ne: "\<not> eofbit (input L1)"
      and b: "buf (input L1) = NL # rest"
      by (cases "buf (input L1)") auto
    have w2: "wf_stream (input L2)"
      using ne b by (simp add: L2_def get_def wf_stream_def)
    have e2: "ends_lines L2"
      using ne b e1 by (auto simp: L2_def get_def ends_lines_def)
    show ?thesis
    proof (cases "tokens L2 = [] \<or> last (tokens L2) = tt_Newline")
      case rec: True
      with "1.prems" sc True have "LoadToken L2 = Inr (t, L')"
        by (simp add: LoadToken.simps [of L] L2_def Let_def)
      from "1.IH" [OF sc refl True L2_def rec this w2 e2] show ?thesis .
    next
      case False
      with "1.prems" sc True have "L' = L2"
        by (auto simp: LoadToken.simps [of L] L2_def Let_def)
      with w2 e2 show ?thesis by simp
    qed
  next
    case False
    with "1.prems" sc have d: "LoadToken_dispatch c L1 = Inr (t, L')"
      by (simp add: LoadToken.simps [of L])
    have ad: "advances (input L1) (input L')"
      using LoadToken_dispatch_advances [OF d w1 _ False] a by simp
    note tk = LoadToken_dispatch_token [OF d]
    have "ends_lines L'"
    proof (cases "buf (input L1) = []")
      case True
      with advances_empty [OF ad True] e1 tk show ?thesis by (simp add: ends_lines_def)
    next
      case False
      with e1 have "last (buf (input L1)) = NL" by (simp add: ends_lines_def)
      from advances_last_NL [OF ad False this] show ?thesis by (simp add: ends_lines_def)
    qed
    with ad show ?thesis by (simp add: advances_wf)
  qed
qed

lemma Lexer_loop_ends_lines:
  "Lexer_loop L = Inr Lf \<Longrightarrow> wf_stream (input L) \<Longrightarrow> ends_lines L \<Longrightarrow>
     wf_stream (input Lf) \<and> ends_lines Lf"
proof (induction L rule: Lexer_loop.induct)
  case (1 L)
  show ?case
  proof (cases "tokens L = [] \<or> last (tokens L) \<noteq> tt_Eof")
    case True
    with "1.prems"(1) obtain t L' where lt: "LoadToken L = Inr (t, L')"
      and loop: "Lexer_loop (L'\<lparr>tokens := tokens L' @ [t]\<rparr>) = Inr Lf"
      by (cases "LoadToken L") (auto simp: Lexer_loop_unfold_step)
    from LoadToken_ends_lines [OF lt "1.prems"(2,3)]
    have "wf_stream (input (L'\<lparr>tokens := tokens L' @ [t]\<rparr>))"
      "ends_lines (L'\<lparr>tokens := tokens L' @ [t]\<rparr>)"
      by (simp_all add: ends_lines_def)
    from "1.IH" [OF True lt refl loop this] show ?thesis .
  next
    case False
    with "1.prems" show ?thesis by (simp add: Lexer_loop_unfold_Eof)
  qed
qed

subsection \<open>The token buffer of an accepted source\<close>

text \<open>
  The part of claim C2 that holds for every source the lexer accepts: the buffer ends with
  \<open>Eof\<close> and has no other \<open>Eof\<close>; no two \<open>Newline\<close> tokens are neighbours; every
  \<open>Dedent\<close> closes an \<open>Indent\<close> that is open; and the token before \<open>Eof\<close>, if there is
  one, is \<open>Newline\<close> or \<open>Dedent\<close>.
\<close>

theorem Lexer_token_buffer:
  assumes "Lexer_tokens src = Inr ts"
  shows "ts \<noteq> [] \<and> last ts = tt_Eof \<and> tt_Eof \<notin> set (butlast ts)
       \<and> no_double_Newline ts \<and> well_nested 0 ts
       \<and> (butlast ts = [] \<or> last (butlast ts) = tt_Newline \<or> last (butlast ts) = tt_Dedent)"
proof -
  from assms obtain Lf where n: "Lexer_new src = Inr Lf" and ts: "ts = tokens Lf"
    by (auto simp: Lexer_tokens_def split: sum.splits)
  from Lexer_new_layout [OF n] obtain ts' where
    "ts = ts' @ [tt_Eof]" "tt_Eof \<notin> set ts'" "well_nested 0 ts'" "no_double_Newline ts'"
    "ts' = [] \<or> last ts' = tt_Newline \<or> last ts' = tt_Dedent"
    using ts by auto
  then show ?thesis
    by (auto simp: well_nested_append no_double_Newline_snoc)
qed

theorem Lexer_token_buffer_witness:
  "Lexer_tokens (''x = 1'' @ [NL, NL] @ ''  y'' @ [NL]) =
     Inr [tt_Id ''x'', tt_Char CHR ''='', tt_Number 1, tt_Newline, tt_Indent, tt_Id ''y'',
          tt_Newline, tt_Dedent, tt_Eof]
   \<and> no_double_Newline [tt_Id ''x'', tt_Char CHR ''='', tt_Number 1, tt_Newline, tt_Indent,
        tt_Id ''y'', tt_Newline, tt_Dedent, tt_Eof]
   \<and> well_nested 0 [tt_Id ''x'', tt_Char CHR ''='', tt_Number 1, tt_Newline, tt_Indent,
        tt_Id ''y'', tt_Newline, tt_Dedent, tt_Eof]"
proof -
  have e: "Lexer_tokens (''x = 1'' @ [NL, NL] @ ''  y'' @ [NL]) =
     Inr [tt_Id ''x'', tt_Char CHR ''='', tt_Number 1, tt_Newline, tt_Indent, tt_Id ''y'',
          tt_Newline, tt_Dedent, tt_Eof]"
    by code_simp
  from Lexer_token_buffer [OF e] e show ?thesis by simp
qed

text \<open>
  When the source is empty or ends with a newline every \<open>Indent\<close> is closed as well: the
  buffer has as many \<open>Dedent\<close> tokens as \<open>Indent\<close> tokens.
\<close>

theorem Lexer_newline_terminated:
  assumes "Lexer_tokens src = Inr ts" and "src = [] \<or> last src = NL"
  shows "well_nested 0 ts \<and> count_list ts tt_Indent = count_list ts tt_Dedent"
proof -
  from assms(1) obtain Lf where n: "Lexer_new src = Inr Lf" and ts: "ts = tokens Lf"
    by (auto simp: Lexer_tokens_def split: sum.splits)
  from Lexer_new_layout [OF n] obtain ts' where t: "ts = ts' @ [tt_Eof]" "well_nested 0 ts'"
    "depth ts' = current_indent Lf" and e: "eofbit (input Lf)" "\<not> new_line Lf"
    using ts by auto
  let ?L0 = "\<lparr>input = \<lparr>buf = src, eofbit = False\<rparr>, tokens = [], current_indent = 0,
      new_line = True\<rparr>"
  have w0: "wf_stream (input ?L0)" by (simp add: wf_stream_def)
  have e0: "ends_lines ?L0" using assms(2) by (auto simp: ends_lines_def)
  have "wf_stream (input Lf) \<and> ends_lines Lf"
    using n [unfolded Lexer_new_def] w0 e0 by (rule Lexer_loop_ends_lines)
  with e have "current_indent Lf = 0"
    by (auto simp: wf_stream_def ends_lines_def)
  with t have "depth ts = 0" by simp
  then have "count_list ts tt_Indent = count_list ts tt_Dedent"
    by (simp add: depth_def)
  with t show ?thesis by (simp add: well_nested_append)
qed

theorem Lexer_newline_terminated_witness:
  "Lexer_tokens (''if x:'' @ [NL] @ ''  y'' @ [NL]) =
     Inr [tt_If, tt_Id ''x'', tt_Char CHR '':'', tt_Newline, tt_Indent, tt_Id ''y'', tt_Newline,
          tt_Dedent, tt_Eof]
   \<and> last (''if x:'' @ [NL] @ ''  y'' @ [NL]) = NL
   \<and> well_nested 0 [tt_If, tt_Id ''x'', tt_Char CHR '':'', tt_Newline, tt_Indent, tt_Id ''y'',
        tt_Newline, tt_Dedent, tt_Eof]
   \<and> count_list [tt_If, tt_Id ''x'', tt_Char CHR '':'', tt_Newline, tt_Indent, tt_Id ''y'',
        tt_Newline, tt_Dedent, tt_Eof] tt_Indent
     = count_list [tt_If, tt_Id ''x'', tt_Char CHR '':'', tt_Newline, tt_Indent, tt_Id ''y'',
        tt_Newline, tt_Dedent, tt_Eof] tt_Dedent"
proof -
  have e: "Lexer_tokens (''if x:'' @ [NL] @ ''  y'' @ [NL]) =
     Inr [tt_If, tt_Id ''x'', tt_Char CHR '':'', tt_Newline, tt_Indent, tt_Id ''y'', tt_Newline,
          tt_Dedent, tt_Eof]"
    by code_simp
  have l: "''if x:'' @ [NL] @ ''  y'' @ [NL] = [] \<or> last (''if x:'' @ [NL] @ ''  y'' @ [NL]) = NL"
    by simp
  from Lexer_newline_terminated [OF e l] e show ?thesis by simp
qed

section \<open>Properties of the runtime\<close>

subsection \<open>Method lookup\<close>

lemma find_append_first:
  "find P (xs @ ys) = (case find P xs of Some x \<Rightarrow> Some x | None \<Rightarrow> find P ys)"
  by (induction xs) auto

lemma GetMethod_chain:
  "GetMethod cls method_name =
     find (\<lambda>m. Method_name m = method_name) (concat (map Class_methods (Class_chain cls)))"
proof (induction cls method_name rule: GetMethod.induct)
  case (1 nm ms p n)
  show ?case
  proof (cases p)
    case None
    then show ?thesis by (simp add: find_append_first split: option.splits)
  next
    case (Some pc)
    with 1 show ?thesis by (simp add: find_append_first split: option.splits)
  qed
qed

text \<open>
  Claim C7. \<open>GetMethod\<close> returns the first method of that name among the methods of the
  class itself followed by those of its parent chain; the number of parameters plays no
  part in the lookup. \<open>HasMethod\<close> holds exactly when the lookup finds a method and that
  method has \<open>argc\<close> formal parameters.
\<close>

theorem GetMethod_first_in_chain:
  "GetMethod cls method_name =
     find (\<lambda>m. Method_name m = method_name) (concat (map Class_methods (Class_chain cls)))
   \<and> HasMethod cls method_name argc =
       (\<exists>m. GetMethod cls method_name = Some m \<and> length (Method_formal_params m) = argc)"
  by (simp add: GetMethod_chain [symmetric] HasMethod_def split: option.splits)

subsection \<open>Calling a method\<close>

lemma map_of_foldl_update:
  "map_of (foldl (\<lambda>closure (k, v). AList.update k v closure) c kvs) = map_of c ++ map_of (rev kvs)"
proof (induction kvs arbitrary: c)
  case Nil
  show ?case by simp
next
  case (Cons kv kvs)
  obtain k v where kv: "kv = (k, v)" by (cases kv)
  show ?case
    by (simp add: Cons.IH kv update_conv' map_add_def fun_eq_iff split: option.splits)
qed

lemma map_of_Call_closure:
  "map_of (Call_closure formal_params actual_args self) =
     (map_of (rev (zip formal_params actual_args)))(''self'' \<mapsto> self)"
  by (simp add: Call_closure_def update_conv' map_of_foldl_update)

text \<open>
  Claim C8. \<open>ClassInstance::Call\<close> throws \<open>std::runtime_error("Not implemented")\<close>, the
  specification's \<open>ArityMismatch\<close>, when the class chain has no method of that name and
  when the method found has another number of formal parameters than there are actual
  arguments; the state is untouched. Otherwise it executes the body of the method in a
  closure of its own, which binds the formal parameters to the actual arguments and
  \<open>self\<close> to a \<open>Share\<close> holder of the instance and nothing else, and returns what
  the body returns (or throws what it throws) with the state the body leaves.
\<close>

theorem Call_arity:
  "(GetMethod cls method_name = None \<longrightarrow>
      Call exec cls a method_name actual_args st = (Inl (runtime_error ''Not implemented''), st))
   \<and> (\<forall>m. GetMethod cls method_name = Some m \<and> length (Method_formal_params m) \<noteq> length actual_args \<longrightarrow>
      Call exec cls a method_name actual_args st = (Inl (runtime_error ''Not implemented''), st))
   \<and> (\<forall>m. GetMethod cls method_name = Some m \<and> length (Method_formal_params m) = length actual_args \<longrightarrow>
      (\<exists>closure. map_of closure =
           (map_of (rev (zip (Method_formal_params m) actual_args)))
             (''self'' \<mapsto> Share (ClassInstance cls a))
         \<and> Call exec cls a method_name actual_args st =
             (fst (exec (Method_body m) closure st), snd (snd (exec (Method_body m) closure st)))))"
proof (intro conjI allI impI)
  fix m
  assume "GetMethod cls method_name = Some m \<and> length (Method_formal_params m) = length actual_args"
  then show "\<exists>closure. map_of closure =
           (map_of (rev (zip (Method_formal_params m) actual_args)))
             (''self'' \<mapsto> Share (ClassInstance cls a))
         \<and> Call exec cls a method_name actual_args st =
             (fst (exec (Method_body m) closure st), snd (snd (exec (Method_body m) closure st)))"
    by (intro exI [of _ "Call_closure (Method_formal_params m) actual_args (Share (ClassInstance cls a))"])
       (simp add: map_of_Call_closure Call_def split: prod.splits)
qed (simp_all add: Call_def)

text \<open>The witness of claim C8: a class without the method, and a call with no argument
  and with one argument of a method of one parameter.\<close>

theorem Call_arity_witness:
  "GetMethod Bare_class ''__eq__'' = None
   \<and> Call (Execute 3) Bare_class 0 ''__eq__'' [Own (Number 1)] example_state =
       (Inl (runtime_error ''Not implemented''), example_state)
   \<and> GetMethod Same_class ''__eq__'' =
       Some (Method ''__eq__'' [''other''] (MethodBody (Return (VariableValue [''other'']))))
   \<and> Call (Execute 3) Same_class 0 ''__eq__'' [] example_state =
       (Inl (runtime_error ''Not implemented''), example_state)
   \<and> Call (Execute 3) Same_class 0 ''__eq__'' [Own (Number 1)] example_state =
       (Inr (Own (Number 1)), example_state)"
proof -
  have g0: "GetMethod Bare_class ''__eq__'' = None"
    by (simp add: Bare_class_def)
  have g1: "GetMethod Same_class ''__eq__'' =
       Some (Method ''__eq__'' [''other''] (MethodBody (Return (VariableValue [''other'']))))"
    by (simp add: Same_class_def)
  have c: "Call (Execute 3) Same_class 0 ''__eq__'' [Own (Number 1)] example_state =
       (Inr (Own (Number 1)), example_state)"
    by code_simp
  from g0 g1 c
    Call_arity [of Bare_class "''__eq__''" "Execute 3" 0 "[Own (Number 1)]" example_state]
    Call_arity [of Same_class "''__eq__''" "Execute 3" 0 "[]" example_state]
  show ?thesis by simp
qed

subsection \<open>Equality and the derived comparators\<close>

lemma Get_simps [simp]: "Get EmptyHolder = None" "Get (Own obj) = Some obj" "Get (Share obj) = Some obj"
  by (simp_all add: Get_def)

lemma Equal_table:
  "Equal exec lhs rhs st =
     (case (Get lhs, Get rhs) of
        (None, None) \<Rightarrow> (Inr True, st)
      | (Some (Bool a), Some (Bool b)) \<Rightarrow> (Inr (a = b), st)
      | (Some (Number a), Some (Number b)) \<Rightarrow> (Inr (a = b), st)
      | (Some (String a), Some (String b)) \<Rightarrow> (Inr (a = b), st)
      | (Some (ClassInstance cls a), _) \<Rightarrow>
          (case Call exec cls a ''__eq__'' [rhs] st of
             (Inl e, st1) \<Rightarrow> (Inl e, st1)
           | (Inr r, st1) \<Rightarrow>
               (case TryAs_Bool r of
                  None \<Rightarrow> (Inl null_dereference, st1)
                | Some b \<Rightarrow> (Inr b, st1)))
      | _ \<Rightarrow> (Inl (runtime_error ''Cannot compare objects for equality''), st))"
proof -
  note defs = Equal_def Equal_Bool_def Equal_Number_def Equal_String_def TryAs_Bool_def
    TryAs_Number_def TryAs_String_def TryAs_ClassInstance_def
  show ?thesis
  proof (cases "Get lhs")
    case l: None
    show ?thesis
    proof (cases "Get rhs")
      case None
      with l show ?thesis by (simp add: defs)
    next
      case (Some b)
      with l show ?thesis by (cases b) (simp_all add: defs)
    qed
  next
    case l: (Some a)
    show ?thesis
    proof (cases "Get rhs")
      case None
      with l show ?thesis by (cases a) (simp_all add: defs)
    next
      case (Some b)
      with l show ?thesis by (cases a; cases b) (simp_all add: defs)
    qed
  qed
qed




text \<open>
  Claim C5. The derived comparators are the C++ expressions
  \<open>!Less && !Equal\<close>, \<open>Less || Equal\<close>, \<open>!Less\<close> and \<open>!Equal\<close>: where \<open>Less\<close> returns
  \<open>lt\<close> and \<open>Equal\<close> returns \<open>eq\<close>, they return \<open>\<not> lt \<and> \<not> eq\<close>,
  \<open>lt \<or> eq\<close>, \<open>\<not> lt\<close> and the negation of what \<open>Equal\<close> returns. A comparison
  of class instances runs \<open>__lt__\<close> and \<open>__eq__\<close>, which may change the state, so the
  \<open>Equal\<close> of \<open>Greater\<close> and \<open>LessOrEqual\<close> is the one that runs after \<open>Less\<close>, in
  the state \<open>Less\<close> has left; it does not run when \<open>Less\<close> has decided the result.
\<close>

theorem derived_comparators:
  assumes "Less exec lhs rhs st = (Inr lt, st1)"
    and "Equal exec lhs rhs st1 = (Inr eq, st2)"
    and "Equal exec lhs rhs st = (Inr eq0, st0)"
  shows "Greater exec lhs rhs st = (Inr (\<not> lt \<and> \<not> eq), if lt then st1 else st2)
       \<and> LessOrEqual exec lhs rhs st = (Inr (lt \<or> eq), if lt then st1 else st2)
       \<and> GreaterOrEqual exec lhs rhs st = (Inr (\<not> lt), st1)
       \<and> NotEqual exec lhs rhs st = (Inr (\<not> eq0), st0)"
  using assms by (simp add: Greater_def LessOrEqual_def GreaterOrEqual_def NotEqual_def)

theorem derived_comparators_witness:
  "Less (Execute 0) (Own (Number 1)) (Own (Number 2)) example_state = (Inr True, example_state)
   \<and> Equal (Execute 0) (Own (Number 1)) (Own (Number 2)) example_state = (Inr False, example_state)
   \<and> Greater (Execute 0) (Own (Number 1)) (Own (Number 2)) example_state = (Inr False, example_state)
   \<and> LessOrEqual (Execute 0) (Own (Number 1)) (Own (Number 2)) example_state = (Inr True, example_state)
   \<and> GreaterOrEqual (Execute 0) (Own (Number 1)) (Own (Number 2)) example_state = (Inr False, example_state)
   \<and> NotEqual (Execute 0) (Own (Number 1)) (Own (Number 2)) example_state = (Inr True, example_state)"
proof -
  have l: "Less (Execute 0) (Own (Number 1)) (Own (Number 2)) example_state = (Inr True, example_state)"
    by (simp add: Less_def Less_Bool_def Less_Number_def TryAs_Bool_def TryAs_Number_def)
  have e: "Equal (Execute 0) (Own (Number 1)) (Own (Number 2)) example_state = (Inr False, example_state)"
    by (simp add: Equal_table)
  from derived_comparators [OF l e e] l e show ?thesis by simp
qed

section \<open>Properties of the statements\<close>

lemma Execute_0 [simp]: "Execute 0 stmt closure st = (Inl out_of_fuel, closure, st)"
  by (simp add: Execute.simps)

lemma Execute_Suc:
  "Execute (Suc n) stmt closure st =
     Execute_step (Execute n) (Object_Print n (Execute n)) stmt closure st"
  by (simp add: Execute.simps)

lemma Execute_VariableValue:
  "Execute (Suc n) (VariableValue ids) closure st = (VariableValue_walk ids closure st, closure, st)"
  by (simp add: Execute_Suc Execute_step_def)

lemma if_branch_id: "if_branch r = r"
proof -
  obtain x c s where r: "r = (x, c, s)" by (cases r)
  show ?thesis
  proof (cases x)
    case (Inl e)
    with r show ?thesis by (simp add: if_branch_def)
  next
    case (Inr v)
    with r show ?thesis by (cases v) (simp_all add: if_branch_def)
  qed
qed

lemma Execute_IfElse:
  "Execute (Suc n) (IfElse condition if_body else_body) closure st =
     (case Execute n condition closure st of
        (Inl e, c1, st1) \<Rightarrow> (Inl e, c1, st1)
      | (Inr cond, c1, st1) \<Rightarrow>
          if Get cond = None then (Inl assert_failed, c1, st1)
          else
            (case TryAs_Bool cond of
               None \<Rightarrow> (Inl null_dereference, c1, st1)
             | Some b \<Rightarrow>
                 if b then Execute n if_body c1 st1
                 else
                   (case else_body of
                      None \<Rightarrow> (Inr EmptyHolder, c1, st1)
                    | Some eb \<Rightarrow> Execute n eb c1 st1)))"
  by (simp add: Execute_Suc Execute_step_def if_branch_id split: prod.splits sum.splits option.splits)

lemma Execute_Or:
  "Execute (Suc n) (Or lhs rhs) closure st =
     (case Execute n lhs closure st of
        (Inl e, c1, st1) \<Rightarrow> (Inl e, c1, st1)
      | (Inr l, c1, st1) \<Rightarrow>
          (case IsTrue_ast (Execute n) l st1 of
             (Inl e, st2) \<Rightarrow> (Inl e, c1, st2)
           | (Inr lb, st2) \<Rightarrow>
               if lb then (Inr (Own (Bool True)), c1, st2)
               else
                 (case Execute n rhs c1 st2 of
                    (Inl e, c2, st3) \<Rightarrow> (Inl e, c2, st3)
                  | (Inr r, c2, st3) \<Rightarrow>
                      (case IsTrue_ast (Execute n) r st3 of
                         (Inl e, st4) \<Rightarrow> (Inl e, c2, st4)
                       | (Inr rb, st4) \<Rightarrow> (Inr (Own (Bool rb)), c2, st4)))))"
  by (simp add: Execute_Suc Execute_step_def split: prod.splits sum.splits)

lemma Execute_And:
  "Execute (Suc n) (And lhs rhs) closure st =
     (case Execute n lhs closure st of
        (Inl e, c1, st1) \<Rightarrow> (Inl e, c1, st1)
      | (Inr l, c1, st1) \<Rightarrow>
          (case IsTrue_ast (Execute n) l st1 of
             (Inl e, st2) \<Rightarrow> (Inl e, c1, st2)
           | (Inr lb, st2) \<Rightarrow>
               if lb then
                 (case Execute n rhs c1 st2 of
                    (Inl e, c2, st3) \<Rightarrow> (Inl e, c2, st3)
                  | (Inr r, c2, st3) \<Rightarrow>
                      (case IsTrue_ast (Execute n) r st3 of
                         (Inl e, st4) \<Rightarrow> (Inl e, c2, st4)
                       | (Inr rb, st4) \<Rightarrow> (Inr (Own (Bool rb)), c2, st4)))
               else (Inr (Own (Bool False)), c1, st2)))"
  by (simp add: Execute_Suc Execute_step_def split: prod.splits sum.splits)

subsection \<open>Or and And\<close>

text \<open>
  Claim C1, as the code has it. \<open>Or::Execute\<close> and \<open>And::Execute\<close> join the two
  \<open>IsTrue(...)\<close> calls with the C++ operators \<open>||\<close> and \<open>&&\<close>, which evaluate their
  right operand only when the left one has not decided the result. With the left
  statement executed and \<open>IsTrue\<close> of its value returning \<open>lb\<close>: when \<open>lb\<close> is true
  \<open>Or\<close> returns an owning \<open>Bool(true)\<close>, and when \<open>lb\<close> is false \<open>And\<close> returns an owning
  \<open>Bool(false)\<close>, in both cases with the closure and the state as the left operand left
  them, whatever the right statement is: it is not executed. In the other two cases the
  right statement is executed after the left one, its effects stay, and the result is an
  owning \<open>Bool\<close> of its truth.
\<close>

theorem Or_And_short_circuit:
  assumes "Execute n lhs closure st = (Inr l, c1, st1)"
    and "IsTrue_ast (Execute n) l st1 = (Inr lb, st2)"
  shows "(lb \<longrightarrow> Execute (Suc n) (Or lhs rhs) closure st = (Inr (Own (Bool True)), c1, st2))
       \<and> (\<not> lb \<longrightarrow> Execute (Suc n) (And lhs rhs) closure st = (Inr (Own (Bool False)), c1, st2))
       \<and> (\<forall>r c2 st3 rb st4.
             Execute n rhs c1 st2 = (Inr r, c2, st3) \<and> IsTrue_ast (Execute n) r st3 = (Inr rb, st4) \<longrightarrow>
               (\<not> lb \<longrightarrow> Execute (Suc n) (Or lhs rhs) closure st = (Inr (Own (Bool rb)), c2, st4))
             \<and> (lb \<longrightarrow> Execute (Suc n) (And lhs rhs) closure st = (Inr (Own (Bool rb)), c2, st4)))"
  using assms by (simp add: Execute_Or Execute_And)

theorem Or_And_short_circuit_witness:
  "Execute (Suc 0) (VariableValue [''x'']) example_closure example_state =
     (Inr (Own (Bool True)), example_closure, example_state)
   \<and> IsTrue_ast (Execute (Suc 0)) (Own (Bool True)) example_state = (Inr True, example_state)
   \<and> Execute (Suc (Suc 0)) (Or (VariableValue [''x'']) (Print [])) example_closure example_state =
       (Inr (Own (Bool True)), example_closure, example_state)
   \<and> Execute (Suc 0) (VariableValue [''y'']) example_closure example_state =
       (Inr (Own (Bool False)), example_closure, example_state)
   \<and> IsTrue_ast (Execute (Suc 0)) (Own (Bool False)) example_state = (Inr False, example_state)
   \<and> Execute (Suc (Suc 0)) (And (VariableValue [''y'']) (Print [])) example_closure example_state =
       (Inr (Own (Bool False)), example_closure, example_state)
   \<and> Execute (Suc (Suc 0)) (Or (VariableValue [''y'']) (VariableValue [''x''])) example_closure example_state =
       (Inr (Own (Bool True)), example_closure, example_state)
   \<and> Execute (Suc (Suc 0)) (And (VariableValue [''x'']) (VariableValue [''y''])) example_closure example_state =
       (Inr (Own (Bool False)), example_closure, example_state)"
proof -
  have x: "Execute (Suc 0) (VariableValue [''x'']) example_closure example_state =
     (Inr (Own (Bool True)), example_closure, example_state)"
    by (simp add: Execute_VariableValue example_closure_def)
  have y: "Execute (Suc 0) (VariableValue [''y'']) example_closure example_state =
     (Inr (Own (Bool False)), example_closure, example_state)"
    by (simp add: Execute_VariableValue example_closure_def)
  have t: "IsTrue_ast (Execute (Suc 0)) (Own (Bool True)) example_state = (Inr True, example_state)"
    by (simp add: IsTrue_ast_def Equal_table)
  have f: "IsTrue_ast (Execute (Suc 0)) (Own (Bool False)) example_state = (Inr False, example_state)"
    by (simp add: IsTrue_ast_def Equal_table)
  from Or_And_short_circuit [OF x t, of "Print []"]
  have 1: "Execute (Suc (Suc 0)) (Or (VariableValue [''x'']) (Print [])) example_closure example_state =
       (Inr (Own (Bool True)), example_closure, example_state)"
    by simp
  from Or_And_short_circuit [OF y f, of "Print []"]
  have 2: "Execute (Suc (Suc 0)) (And (VariableValue [''y'']) (Print [])) example_closure example_state =
       (Inr (Own (Bool False)), example_closure, example_state)"
    by simp
  from Or_And_short_circuit [OF y f, of "VariableValue [''x'']", THEN conjunct2, THEN conjunct2,
      rule_format, OF conjI [OF x t]]
  have 3: "Execute (Suc (Suc 0)) (Or (VariableValue [''y'']) (VariableValue [''x''])) example_closure example_state =
       (Inr (Own (Bool True)), example_closure, example_state)"
    by simp
  from Or_And_short_circuit [OF x t, of "VariableValue [''y'']", THEN conjunct2, THEN conjunct2,
      rule_format, OF conjI [OF y f]]
  have 4: "Execute (Suc (Suc 0)) (And (VariableValue [''x'']) (VariableValue [''y''])) example_closure example_state =
       (Inr (Own (Bool False)), example_closure, example_state)"
    by simp
  from x y t f 1 2 3 4 show ?thesis by simp
qed

text \<open>
  The claim as the specification words it has both operands executed unconditionally.
  Here the right operand is \<open>print\<close> with no argument, which executed alone writes a
  newline to the output; after \<open>Or\<close> with a true left operand, and after \<open>And\<close> with a
  false one, the output is as before.
\<close>

theorem Or_short_circuit_counterexample:
  "Execute (Suc (Suc 0)) (Or (VariableValue [''x'']) (Print [])) example_closure example_state =
     (Inr (Own (Bool True)), example_closure, example_state)
   \<and> Execute (Suc 0) (Print []) example_closure example_state =
     (Inr (Own (String [NL])), example_closure, example_state\<lparr>output_stream := [NL]\<rparr>)
   \<and> Execute (Suc (Suc 0)) (And (VariableValue [''y'']) (Print [])) example_closure example_state =
     (Inr (Own (Bool False)), example_closure, example_state)"
  by code_simp

subsection \<open>IfElse\<close>

text \<open>
  Claim C9. With the condition executed and returning the holder \<open>cond\<close>: an empty
  \<open>cond\<close> fails the assertion; a \<open>cond\<close> that holds something other than a \<open>Bool\<close> is a
  null dereference (\<open>TryAs<Bool>()\<close> returns the null pointer), no truth value is made
  up for it; for a \<open>Bool\<close> the chosen branch is executed in the closure and the state the
  condition left, and \<open>IfElse\<close> returns what the branch returns, which is the empty
  holder when the branch returns it; a false condition without an else branch returns the
  empty holder and executes nothing more.
\<close>

theorem IfElse_condition:
  assumes "Execute n condition closure st = (Inr cond, c1, st1)"
  shows "Execute (Suc n) (IfElse condition if_body else_body) closure st =
     (case Get cond of
        None \<Rightarrow> (Inl assert_failed, c1, st1)
      | Some (Bool b) \<Rightarrow>
          if b then Execute n if_body c1 st1
          else (case else_body of
                  None \<Rightarrow> (Inr EmptyHolder, c1, st1)
                | Some eb \<Rightarrow> Execute n eb c1 st1)
      | Some _ \<Rightarrow> (Inl null_dereference, c1, st1))"
proof (cases "Get cond")
  case None
  with assms show ?thesis by (simp add: Execute_IfElse)
next
  case (Some obj)
  with assms show ?thesis by (cases obj) (simp_all add: Execute_IfElse TryAs_Bool_def)
qed

theorem IfElse_condition_witness:
  "Execute (Suc 0) (VariableValue [''x'']) example_closure example_state =
     (Inr (Own (Bool True)), example_closure, example_state)
   \<and> Execute (Suc (Suc 0)) (IfElse (VariableValue [''x'']) (VariableValue [''n'']) None)
         example_closure example_state =
       (Inr (Own (Number 5)), example_closure, example_state)
   \<and> Execute (Suc 0) (VariableValue [''y'']) example_closure example_state =
     (Inr (Own (Bool False)), example_closure, example_state)
   \<and> Execute (Suc (Suc 0)) (IfElse (VariableValue [''y'']) (VariableValue [''n'']) None)
         example_closure example_state =
       (Inr EmptyHolder, example_closure, example_state)
   \<and> Execute (Suc 0) (VariableValue [''n'']) example_closure example_state =
     (Inr (Own (Number 5)), example_closure, example_state)
   \<and> Execute (Suc (Suc 0)) (IfElse (VariableValue [''n'']) (VariableValue [''n'']) None)
         example_closure example_state =
       (Inl null_dereference, example_closure, example_state)"
proof -
  have x: "Execute (Suc 0) (VariableValue [''x'']) example_closure example_state =
     (Inr (Own (Bool True)), example_closure, example_state)"
    by (simp add: Execute_VariableValue example_closure_def)
  have y: "Execute (Suc 0) (VariableValue [''y'']) example_closure example_state =
     (Inr (Own (Bool False)), example_closure, example_state)"
    by (simp add: Execute_VariableValue example_closure_def)
  have n: "Execute (Suc 0) (VariableValue [''n'']) example_closure example_state =
     (Inr (Own (Number 5)), example_closure, example_state)"
    by (simp add: Execute_VariableValue example_closure_def)
  from x y n
    IfElse_condition [OF x, of "VariableValue [''n'']" None]
    IfElse_condition [OF y, of "VariableValue [''n'']" None]
    IfElse_condition [OF n, of "VariableValue [''n'']" None]
  show ?thesis by simp
qed

subsection \<open>The truth of an operand of Or and And\<close>

text \<open>
  Claim C10. The \<open>IsTrue\<close> of \<open>statement.cpp\<close> is \<open>runtime::Equal\<close> against an owning
  \<open>Bool(true)\<close>, for every holder \<open>v\<close>: a \<open>Bool\<close> has its own value; a class instance has
  what its \<open>__eq__\<close>, called with \<open>Bool(true)\<close>, returns; every other holder (empty, a
  \<open>Number\<close>, a \<open>String\<close>, a class) throws "Cannot compare objects for equality". \<open>Or\<close>
  and \<open>And\<close> decide by these \<open>Equal\<close> calls and by nothing else. So they throw that
  error when their left operand evaluates to an empty holder, a \<open>Number\<close> or a \<open>String\<close>,
  and when the left operand leaves the result open and the right operand evaluates to
  one. \<open>runtime::IsTrue\<close>, which they do not call, gives such a holder a truth value:
  nonzero, nonempty, false for the empty holder.
\<close>

theorem Or_And_truth_by_Equal:
  "IsTrue_ast exec v st = Equal exec v (Own (Bool True)) st
   \<and> IsTrue_ast exec v st =
       (case Get v of
          Some (Bool b) \<Rightarrow> (Inr b, st)
        | Some (ClassInstance cls a) \<Rightarrow>
            (case Call exec cls a ''__eq__'' [Own (Bool True)] st of
               (Inl e, st1) \<Rightarrow> (Inl e, st1)
             | (Inr r, st1) \<Rightarrow>
                 (case TryAs_Bool r of
                    None \<Rightarrow> (Inl null_dereference, st1)
                  | Some b \<Rightarrow> (Inr b, st1)))
        | _ \<Rightarrow> (Inl (runtime_error ''Cannot compare objects for equality''), st))
   \<and> Execute (Suc n) (Or lhs rhs) closure st0 =
       (case Execute n lhs closure st0 of
          (Inl e, c1, st1) \<Rightarrow> (Inl e, c1, st1)
        | (Inr l, c1, st1) \<Rightarrow>
            (case Equal (Execute n) l (Own (Bool True)) st1 of
               (Inl e, st2) \<Rightarrow> (Inl e, c1, st2)
             | (Inr lb, st2) \<Rightarrow>
                 if lb then (Inr (Own (Bool True)), c1, st2)
                 else
                   (case Execute n rhs c1 st2 of
                      (Inl e, c2, st3) \<Rightarrow> (Inl e, c2, st3)
                    | (Inr r, c2, st3) \<Rightarrow>
                        (case Equal (Execute n) r (Own (Bool True)) st3 of
                           (Inl e, st4) \<Rightarrow> (Inl e, c2, st4)
                         | (Inr rb, st4) \<Rightarrow> (Inr (Own (Bool rb)), c2, st4)))))
   \<and> Execute (Suc n) (And lhs rhs) closure st0 =
       (case Execute n lhs closure st0 of
          (Inl e, c1, st1) \<Rightarrow> (Inl e, c1, st1)
        | (Inr l, c1, st1) \<Rightarrow>
            (case Equal (Execute n) l (Own (Bool True)) st1 of
               (Inl e, st2) \<Rightarrow> (Inl e, c1, st2)
             | (Inr lb, st2) \<Rightarrow>
                 if lb then
                   (case Execute n rhs c1 st2 of
                      (Inl e, c2, st3) \<Rightarrow> (Inl e, c2, st3)
                    | (Inr r, c2, st3) \<Rightarrow>
                        (case Equal (Execute n) r (Own (Bool True)) st3 of
                           (Inl e, st4) \<Rightarrow> (Inl e, c2, st4)
                         | (Inr rb, st4) \<Rightarrow> (Inr (Own (Bool rb)), c2, st4)))
                 else (Inr (Own (Bool False)), c1, st2)))
   \<and> (Get v = None \<or> (\<exists>k. Get v = Some (Number k)) \<or> (\<exists>s. Get v = Some (String s)) \<longrightarrow>
        IsTrue_ast exec v st = (Inl (runtime_error ''Cannot compare objects for equality''), st)
        \<and> (\<forall>lhs closure st0 c1.
             Execute n lhs closure st0 = (Inr v, c1, st) \<longrightarrow>
               Execute (Suc n) (Or lhs rhs) closure st0 =
                 (Inl (runtime_error ''Cannot compare objects for equality''), c1, st)
             \<and> Execute (Suc n) (And lhs rhs) closure st0 =
                 (Inl (runtime_error ''Cannot compare objects for equality''), c1, st))
        \<and> (\<forall>lhs closure st0 l c1 st1 st2 c2.
             Execute n lhs closure st0 = (Inr l, c1, st1)
             \<and> IsTrue_ast (Execute n) l st1 = (Inr False, st2)
             \<and> Execute n rhs c1 st2 = (Inr v, c2, st) \<longrightarrow>
               Execute (Suc n) (Or lhs rhs) closure st0 =
                 (Inl (runtime_error ''Cannot compare objects for equality''), c2, st))
        \<and> (\<forall>lhs closure st0 l c1 st1 st2 c2.
             Execute n lhs closure st0 = (Inr l, c1, st1)
             \<and> IsTrue_ast (Execute n) l st1 = (Inr True, st2)
             \<and> Execute n rhs c1 st2 = (Inr v, c2, st) \<longrightarrow>
               Execute (Suc n) (And lhs rhs) closure st0 =
                 (Inl (runtime_error ''Cannot compare objects for equality''), c2, st))
        \<and> IsTrue v = (case Get v of Some (Number k) \<Rightarrow> k \<noteq> 0 | Some (String s) \<Rightarrow> s \<noteq> [] | _ \<Rightarrow> False))"
proof -
  have d: "IsTrue_ast exec v st = Equal exec v (Own (Bool True)) st"
    by (simp add: IsTrue_ast_def)
  have tb: "IsTrue_ast exec v st =
       (case Get v of
          Some (Bool b) \<Rightarrow> (Inr b, st)
        | Some (ClassInstance cls a) \<Rightarrow>
            (case Call exec cls a ''__eq__'' [Own (Bool True)] st of
               (Inl e, st1) \<Rightarrow> (Inl e, st1)
             | (Inr r, st1) \<Rightarrow>
                 (case TryAs_Bool r of
                    None \<Rightarrow> (Inl null_dereference, st1)
                  | Some b \<Rightarrow> (Inr b, st1)))
        | _ \<Rightarrow> (Inl (runtime_error ''Cannot compare objects for equality''), st))"
  proof (cases "Get v")
    case None
    then show ?thesis by (simp add: IsTrue_ast_def Equal_table)
  next
    case (Some obj)
    then show ?thesis by (cases obj) (simp_all add: IsTrue_ast_def Equal_table)
  qed
  have o: "Execute (Suc n) (Or lhs rhs) closure st0 =
       (case Execute n lhs closure st0 of
          (Inl e, c1, st1) \<Rightarrow> (Inl e, c1, st1)
        | (Inr l, c1, st1) \<Rightarrow>
            (case Equal (Execute n) l (Own (Bool True)) st1 of
               (Inl e, st2) \<Rightarrow> (Inl e, c1, st2)
             | (Inr lb, st2) \<Rightarrow>
                 if lb then (Inr (Own (Bool True)), c1, st2)
                 else
                   (case Execute n rhs c1 st2 of
                      (Inl e, c2, st3) \<Rightarrow> (Inl e, c2, st3)
                    | (Inr r, c2, st3) \<Rightarrow>
                        (case Equal (Execute n) r (Own (Bool True)) st3 of
                           (Inl e, st4) \<Rightarrow> (Inl e, c2, st4)
                         | (Inr rb, st4) \<Rightarrow> (Inr (Own (Bool rb)), c2, st4)))))"
    unfolding Execute_Or IsTrue_ast_def by (rule refl)
  have a: "Execute (Suc n) (And lhs rhs) closure st0 =
       (case Execute n lhs closure st0 of
          (Inl e, c1, st1) \<Rightarrow> (Inl e, c1, st1)
        | (Inr l, c1, st1) \<Rightarrow>
            (case Equal (Execute n) l (Own (Bool True)) st1 of
               (Inl e, st2) \<Rightarrow> (Inl e, c1, st2)
             | (Inr lb, st2) \<Rightarrow>
                 if lb then
                   (case Execute n rhs c1 st2 of
                      (Inl e, c2, st3) \<Rightarrow> (Inl e, c2, st3)
                    | (Inr r, c2, st3) \<Rightarrow>
                        (case Equal (Execute n) r (Own (Bool True)) st3 of
                           (Inl e, st4) \<Rightarrow> (Inl e, c2, st4)
                         | (Inr rb, st4) \<Rightarrow> (Inr (Own (Bool rb)), c2, st4)))
                 else (Inr (Own (Bool False)), c1, st2)))"
    unfolding Execute_And IsTrue_ast_def by (rule refl)
  have c: "IsTrue_ast exec v st = (Inl (runtime_error ''Cannot compare objects for equality''), st)
        \<and> (\<forall>lhs closure st0 c1.
             Execute n lhs closure st0 = (Inr v, c1, st) \<longrightarrow>
               Execute (Suc n) (Or lhs rhs) closure st0 =
                 (Inl (runtime_error ''Cannot compare objects for equality''), c1, st)
             \<and> Execute (Suc n) (And lhs rhs) closure st0 =
                 (Inl (runtime_error ''Cannot compare objects for equality''), c1, st))
        \<and> (\<forall>lhs closure st0 l c1 st1 st2 c2.
             Execute n lhs closure st0 = (Inr l, c1, st1)
             \<and> IsTrue_ast (Execute n) l st1 = (Inr False, st2)
             \<and> Execute n rhs c1 st2 = (Inr v, c2, st) \<longrightarrow>
               Execute (Suc n) (Or lhs rhs) closure st0 =
                 (Inl (runtime_error ''Cannot compare objects for equality''), c2, st))
        \<and> (\<forall>lhs closure st0 l c1 st1 st2 c2.
             Execute n lhs closure st0 = (Inr l, c1, st1)
             \<and> IsTrue_ast (Execute n) l st1 = (Inr True, st2)
             \<and> Execute n rhs c1 st2 = (Inr v, c2, st) \<longrightarrow>
               Execute (Suc n) (And lhs rhs) closure st0 =
                 (Inl (runtime_error ''Cannot compare objects for equality''), c2, st))
        \<and> IsTrue v = (case Get v of Some (Number k) \<Rightarrow> k \<noteq> 0 | Some (String s) \<Rightarrow> s \<noteq> [] | _ \<Rightarrow> False)"
    if h: "Get v = None \<or> (\<exists>k. Get v = Some (Number k)) \<or> (\<exists>s. Get v = Some (String s))"
  proof -
    have e: "IsTrue_ast ex v s = (Inl (runtime_error ''Cannot compare objects for equality''), s)"
      for ex s
      using h by (auto simp: IsTrue_ast_def Equal_table)
    have t: "IsTrue v = (case Get v of Some (Number k) \<Rightarrow> k \<noteq> 0 | Some (String s) \<Rightarrow> s \<noteq> [] | _ \<Rightarrow> False)"
      using h by (auto simp: IsTrue_def TryAs_Bool_def TryAs_Number_def TryAs_String_def)
    have l: "\<forall>lhs closure st0 c1.
               Execute n lhs closure st0 = (Inr v, c1, st) \<longrightarrow>
                 Execute (Suc n) (Or lhs rhs) closure st0 =
                   (Inl (runtime_error ''Cannot compare objects for equality''), c1, st)
               \<and> Execute (Suc n) (And lhs rhs) closure st0 =
                   (Inl (runtime_error ''Cannot compare objects for equality''), c1, st)"
      by (simp add: e Execute_Or Execute_And)
    have ro: "\<forall>lhs closure st0 l c1 st1 st2 c2.
               Execute n lhs closure st0 = (Inr l, c1, st1)
               \<and> IsTrue_ast (Execute n) l st1 = (Inr False, st2)
               \<and> Execute n rhs c1 st2 = (Inr v, c2, st) \<longrightarrow>
                 Execute (Suc n) (Or lhs rhs) closure st0 =
                   (Inl (runtime_error ''Cannot compare objects for equality''), c2, st)"
      by (simp add: e Execute_Or)
    have ra: "\<forall>lhs closure st0 l c1 st1 st2 c2.
               Execute n lhs closure st0 = (Inr l, c1, st1)
               \<and> IsTrue_ast (Execute n) l st1 = (Inr True, st2)
               \<and> Execute n rhs c1 st2 = (Inr v, c2, st) \<longrightarrow>
                 Execute (Suc n) (And lhs rhs) closure st0 =
                   (Inl (runtime_error ''Cannot compare objects for equality''), c2, st)"
      by (simp add: e Execute_And)
    from e [of exec st] l ro ra t show ?thesis
      by (intro conjI)
  qed
  show ?thesis
    by (rule conjI [OF d conjI [OF tb conjI [OF o conjI [OF a impI [OF c]]]]])
qed

theorem Or_And_truth_by_Equal_witness:
  "Get (Own (Number 5)) = Some (Number 5)
   \<and> IsTrue_ast (Execute (Suc 0)) (Own (Number 5)) example_state =
       (Inl (runtime_error ''Cannot compare objects for equality''), example_state)
   \<and> Execute (Suc 0) (VariableValue [''n'']) example_closure example_state =
       (Inr (Own (Number 5)), example_closure, example_state)
   \<and> Execute (Suc (Suc 0)) (Or (VariableValue [''n'']) (VariableValue [''x''])) example_closure example_state =
       (Inl (runtime_error ''Cannot compare objects for equality''), example_closure, example_state)
   \<and> Execute (Suc (Suc 0)) (And (VariableValue [''n'']) (VariableValue [''x''])) example_closure example_state =
       (Inl (runtime_error ''Cannot compare objects for equality''), example_closure, example_state)
   \<and> Execute (Suc (Suc 0)) (Or (VariableValue [''y'']) (VariableValue [''n''])) example_closure example_state =
       (Inl (runtime_error ''Cannot compare objects for equality''), example_closure, example_state)
   \<and> Execute (Suc (Suc 0)) (And (VariableValue [''x'']) (VariableValue [''n''])) example_closure example_state =
       (Inl (runtime_error ''Cannot compare objects for equality''), example_closure, example_state)
   \<and> IsTrue (Own (Number 5))
   \<and> IsTrue_ast (Execute 3) (Own (Bool False)) example_state = (Inr False, example_state)
   \<and> IsTrue_ast (Execute 3) (Own (ClassInstance Same_class 0)) example_state = (Inr True, example_state)
   \<and> IsTrue_ast (Execute 3) (Own (ClassInstance Bare_class 0)) example_state =
       (Inl (runtime_error ''Not implemented''), example_state)
   \<and> Execute (Suc (Suc 0)) (Or (VariableValue [''y'']) (VariableValue [''x''])) example_closure example_state =
       (Inr (Own (Bool True)), example_closure, example_state)"
proof -
  have g: "Get (Own (Number 5)) = None \<or> (\<exists>k. Get (Own (Number 5)) = Some (Number k))
       \<or> (\<exists>s. Get (Own (Number 5)) = Some (String s))"
    by simp
  have x: "Execute (Suc 0) (VariableValue [''x'']) example_closure example_state =
     (Inr (Own (Bool True)), example_closure, example_state)"
    by (simp add: Execute_VariableValue example_closure_def)
  have y: "Execute (Suc 0) (VariableValue [''y'']) example_closure example_state =
     (Inr (Own (Bool False)), example_closure, example_state)"
    by (simp add: Execute_VariableValue example_closure_def)
  have n: "Execute (Suc 0) (VariableValue [''n'']) example_closure example_state =
     (Inr (Own (Number 5)), example_closure, example_state)"
    by (simp add: Execute_VariableValue example_closure_def)
  have t: "IsTrue_ast (Execute (Suc 0)) (Own (Bool True)) example_state = (Inr True, example_state)"
    by (simp add: IsTrue_ast_def Equal_table)
  have f: "IsTrue_ast (Execute (Suc 0)) (Own (Bool False)) example_state = (Inr False, example_state)"
    by (simp add: IsTrue_ast_def Equal_table)
  have cs: "Call (Execute 3) Same_class 0 ''__eq__'' [Own (Bool True)] example_state =
             (Inr (Own (Bool True)), example_state)"
    by code_simp
  have cb: "Call (Execute 3) Bare_class 0 ''__eq__'' [Own (Bool True)] example_state =
             (Inl (runtime_error ''Not implemented''), example_state)"
    by code_simp
  note w = Or_And_truth_by_Equal [where v = "Own (Number 5)" and exec = "Execute (Suc 0)"
      and st = example_state and n = "Suc 0", THEN conjunct2, THEN conjunct2, THEN conjunct2,
      THEN conjunct2, rule_format, OF g]
  from w [where rhs = "VariableValue [''x'']", THEN conjunct1] have 1:
    "IsTrue_ast (Execute (Suc 0)) (Own (Number 5)) example_state =
       (Inl (runtime_error ''Cannot compare objects for equality''), example_state)" .
  from w [where rhs = "VariableValue [''x'']", THEN conjunct2, THEN conjunct1, rule_format, OF n]
  have 2: "Execute (Suc (Suc 0)) (Or (VariableValue [''n'']) (VariableValue [''x''])) example_closure example_state =
       (Inl (runtime_error ''Cannot compare objects for equality''), example_closure, example_state)
   \<and> Execute (Suc (Suc 0)) (And (VariableValue [''n'']) (VariableValue [''x''])) example_closure example_state =
       (Inl (runtime_error ''Cannot compare objects for equality''), example_closure, example_state)" .
  from w [where rhs = "VariableValue [''n'']", THEN conjunct2, THEN conjunct2, THEN conjunct1,
      rule_format, OF conjI [OF y conjI [OF f n]]]
  have 3: "Execute (Suc (Suc 0)) (Or (VariableValue [''y'']) (VariableValue [''n''])) example_closure example_state =
       (Inl (runtime_error ''Cannot compare objects for equality''), example_closure, example_state)" .
  from w [where rhs = "VariableValue [''n'']", THEN conjunct2, THEN conjunct2, THEN conjunct2,
      THEN conjunct1, rule_format, OF conjI [OF x conjI [OF t n]]]
  have 4: "Execute (Suc (Suc 0)) (And (VariableValue [''x'']) (VariableValue [''n''])) example_closure example_state =
       (Inl (runtime_error ''Cannot compare objects for equality''), example_closure, example_state)" .
  from w [where rhs = "VariableValue [''n'']", THEN conjunct2, THEN conjunct2, THEN conjunct2,
      THEN conjunct2]
  have 5: "IsTrue (Own (Number 5))"
    by simp
  from Or_And_truth_by_Equal [where v = "Own (Bool False)" and exec = "Execute 3"
      and st = example_state, THEN conjunct2, THEN conjunct1]
  have 6: "IsTrue_ast (Execute 3) (Own (Bool False)) example_state = (Inr False, example_state)"
    by simp
  from cs Or_And_truth_by_Equal [where v = "Own (ClassInstance Same_class 0)" and exec = "Execute 3"
      and st = example_state, THEN conjunct2, THEN conjunct1]
  have 7: "IsTrue_ast (Execute 3) (Own (ClassInstance Same_class 0)) example_state =
      (Inr True, example_state)"
    by (simp add: TryAs_Bool_def)
  from cb Or_And_truth_by_Equal [where v = "Own (ClassInstance Bare_class 0)" and exec = "Execute 3"
      and st = example_state, THEN conjunct2, THEN conjunct1]
  have 8: "IsTrue_ast (Execute 3) (Own (ClassInstance Bare_class 0)) example_state =
      (Inl (runtime_error ''Not implemented''), example_state)"
    by simp
  from x y Or_And_truth_by_Equal [where n = "Suc 0" and lhs = "VariableValue [''y'']"
      and rhs = "VariableValue [''x'']" and closure = example_closure and ?st0.0 = example_state,
      THEN conjunct2, THEN conjunct2, THEN conjunct1]
  have 9: "Execute (Suc (Suc 0)) (Or (VariableValue [''y'']) (VariableValue [''x''])) example_closure example_state =
       (Inr (Own (Bool True)), example_closure, example_state)"
    by (simp add: Equal_table)
  from 1 2 3 4 5 6 7 8 9 n show ?thesis by simp
qed

end
